theory Spec2Isabelle
  imports Main "HOL-Library.Sublist"
begin

section \<open>The RateLimiter of seed-database.ts\<close>

text \<open>
  The class under study is \<^verbatim>\<open>RateLimiter\<close> (seed-database.ts, lines 45 to 103): a queue of
  wrapped tasks, a \<^verbatim>\<open>processing\<close> flag, the timestamp of the last call, a retry counter and
  two settings.  Its three methods are asynchronous; they run on the single JavaScript thread
  and give up control only at an \<^verbatim>\<open>await\<close>.  The embedding therefore is a step function on a
  world: the fields of the instance, the clock read by \<^verbatim>\<open>Date.now()\<close>, and the activations
  of \<^verbatim>\<open>processQueue\<close> that are suspended at an \<^verbatim>\<open>await\<close>.  Everything between two
  suspension points runs as one step, as it does on the event loop.

  The source, with its line numbers:
  \<^verbatim>\<open>
   44  // Enhanced rate limiter with exponential backoff
   45  class RateLimiter {
   46    private queue: (() => Promise<any>)[] = [];
   47    private processing = false;
   48    private lastCallTime = 0;
   49    private retryCount = 0;
   50    private maxRetries = 3;
   51  
   52    constructor(private rateLimit: number) {}
   53  
   54    async execute<T>(fn: () => Promise<T>): Promise<T> {
   55      return new Promise((resolve, reject) => {
   56        this.queue.push(async () => {
   57          try {
   58            const now = Date.now();
   59            const timeSinceLastCall = now - this.lastCallTime;
   60            if (timeSinceLastCall < this.rateLimit) {
   61              const waitTime = this.rateLimit - timeSinceLastCall;
   62              await new Promise(resolve => setTimeout(resolve, waitTime));
   63            }
   64  
   65            this.lastCallTime = Date.now();
   66            const result = await this.retryWithBackoff(fn);
   67            this.retryCount = 0; // Reset retry count on success
   68            resolve(result);
   69          } catch (error) {
   70            reject(error);
   71          }
   72        });
   73  
   74        this.processQueue();
   75      });
   76    }
   77  
   78    private async retryWithBackoff(fn: () => Promise<any>): Promise<any> {
   79      try {
   80        return await fn();
   81      } catch (error: any) {
   82        if (error.message?.includes('429') && this.retryCount < this.maxRetries) {
   83          this.retryCount++;
   84          const backoffTime = Math.pow(2, this.retryCount) * 1000; // Exponential backoff
   85          console.log(`Rate limited. Retrying in ${backoffTime/1000} seconds...`);
   86          await new Promise(resolve => setTimeout(resolve, backoffTime));
   87          return this.retryWithBackoff(fn);
   88        }
   89        throw error;
   90      }
   91    }
   92  
   93    private async processQueue() {
   94      if (this.processing || this.queue.length === 0) return;
   95  
   96      this.processing = true;
   97      while (this.queue.length > 0) {
   98        const task = this.queue.shift();
   99        if (task) await task();
  100      }
  101      this.processing = false;
  102    }
  103  }
  \<close>
\<close>

subsection \<open>Values a callable may throw\<close>

text \<open>
  \<^verbatim>\<open>catch (error: any)\<close> receives whatever the callable threw or rejected with, so the model
  keeps the shapes of JavaScript values that the detection expression
  \<^verbatim>\<open>error.message?.includes('429')\<close> can tell apart.  An \<^verbatim>\<open>Error\<close> with message \<open>m\<close> is
  the object \<open>JObj [(''message'', JStr m)]\<close>.
\<close>

datatype js_value =
    JUndefined
  | JNull
  | JBool bool
  | JNum int
  | JStr string
  | JArr "js_value list"
  | JObj "(string \<times> js_value) list"

text \<open>What a caller's promise is rejected with: the value the callable threw, or the
  \<^verbatim>\<open>TypeError\<close> raised by the detection expression itself inside the \<^verbatim>\<open>catch\<close> block.\<close>

datatype reason = Underlying js_value | DetectionTypeError

text \<open>\<^verbatim>\<open>error.message\<close>: reading a property of \<^verbatim>\<open>undefined\<close> or \<^verbatim>\<open>null\<close> throws (\<open>None\<close>);
  primitives and arrays have no such property.\<close>

fun get_message :: "js_value \<Rightarrow> js_value option" where
  "get_message JUndefined = None"
| "get_message JNull = None"
| "get_message (JObj ps) = Some (case map_of ps ''message'' of None \<Rightarrow> JUndefined | Some v \<Rightarrow> v)"
| "get_message _ = Some JUndefined"

text \<open>\<^verbatim>\<open>m?.includes('429')\<close>: the optional chain stops at \<^verbatim>\<open>undefined\<close> and \<^verbatim>\<open>null\<close> (falsy);
  a string is searched for the substring, an array for the element; a boolean, a number or
  an object of the model (which carries data only) has no callable \<^verbatim>\<open>includes\<close>, and
  calling it throws (\<open>None\<close>).\<close>

fun includes_429 :: "js_value \<Rightarrow> bool option" where
  "includes_429 JUndefined = Some False"
| "includes_429 JNull = Some False"
| "includes_429 (JStr s) = Some (sublist ''429'' s)"
| "includes_429 (JArr xs) = Some (JStr ''429'' \<in> set xs)"
| "includes_429 _ = None"

definition rate_limited :: "js_value \<Rightarrow> bool option" where
  "rate_limited error = (case get_message error of None \<Rightarrow> None | Some m \<Rightarrow> includes_429 m)"

definition Error :: "string \<Rightarrow> js_value" where
  "Error m = JObj [(''message'', JStr m)]"

subsection \<open>The instance and the world around it\<close>

text \<open>A queued task is the closure pushed at line 56; it is identified by the number of the
  \<^verbatim>\<open>execute\<close> call that created it (0 for the first), which also names the callable and the
  caller's promise it captures.\<close>

record RateLimiter =
  queue :: "nat list"
  processing :: bool
  lastCallTime :: int
  retryCount :: nat
  maxRetries :: nat
  rateLimit :: int

text \<open>The suspension points of an activation of \<^verbatim>\<open>processQueue\<close> (with the task and the
  \<^verbatim>\<open>retryWithBackoff\<close> call it is inside of): the interval timer of line 62, the callable's
  promise of line 80, the backoff timer of line 86.  A timer carries the clock value at which
  \<^verbatim>\<open>setTimeout\<close> was called and the delay it was called with.\<close>

datatype frame =
    IntervalWait nat int int
  | FnAwait nat
  | BackoffWait nat int int

text \<open>What an observer sees, in order: line 65 reached for a task, the callable invoked, a
  backoff timer set with its delay in milliseconds, the caller's promise settled.\<close>

datatype obs =
    Started nat int
  | Invoked nat int
  | Backoff nat int
  | Resolved nat js_value
  | Rejected nat reason

record world = RateLimiter +
  now :: int
  drains :: "frame list"
  submitted :: nat
  log :: "obs list"

text \<open>\<^verbatim>\<open>new RateLimiter(rateLimit)\<close>, lines 46 to 52.\<close>

definition new_RateLimiter :: "int \<Rightarrow> RateLimiter" where
  "new_RateLimiter r =
     \<lparr>queue = [], processing = False, lastCallTime = 0, retryCount = 0, maxRetries = 3,
      rateLimit = r\<rparr>"

definition init :: "int \<Rightarrow> int \<Rightarrow> world" where
  "init r t0 =
     RateLimiter.extend (new_RateLimiter r)
       \<lparr>now = t0, drains = [], submitted = 0, log = []\<rparr>"

subsection \<open>The methods, from one suspension point to the next\<close>

text \<open>How a stretch of \<^verbatim>\<open>retryWithBackoff\<close> ends: suspended, returned a value, or threw.\<close>

datatype ctl = Suspend frame | Return js_value | Throw reason

text \<open>Line 80 (and line 87, which re-enters it): the callable is invoked and awaited.\<close>

definition retryWithBackoff :: "nat \<Rightarrow> world \<Rightarrow> world \<times> frame" where
  "retryWithBackoff t w = (w\<lparr>log := log w @ [Invoked t (now w)]\<rparr>, FnAwait t)"

text \<open>Lines 80 to 90 when the awaited promise settles.  The first operand of \<^verbatim>\<open>&&\<close> may
  throw; the rethrow of line 89 passes the caught value on.\<close>

definition retryWithBackoff_settled :: "nat \<Rightarrow> js_value + js_value \<Rightarrow> world \<Rightarrow> world \<times> ctl" where
  "retryWithBackoff_settled t outcome w =
     (case outcome of
        Inr v \<Rightarrow> (w, Return v)
      | Inl error \<Rightarrow>
          (case rate_limited error of
             None \<Rightarrow> (w, Throw DetectionTypeError)
           | Some marked \<Rightarrow>
               if marked \<and> retryCount w < maxRetries w then
                 let w1 = w\<lparr>retryCount := retryCount w + 1\<rparr>;
                     backoffTime = 2 ^ retryCount w1 * 1000
                 in (w1\<lparr>log := log w1 @ [Backoff t backoffTime]\<rparr>,
                     Suspend (BackoffWait t (now w1) backoffTime))
               else (w, Throw (Underlying error))))"

text \<open>The task pushed at line 56: lines 58 to 63 up to the interval timer, lines 65 and 66
  after it.\<close>

definition task_start :: "nat \<Rightarrow> world \<Rightarrow> world \<times> frame" where
  "task_start t w =
     retryWithBackoff t (w\<lparr>lastCallTime := now w, log := log w @ [Started t (now w)]\<rparr>)"

definition task :: "nat \<Rightarrow> world \<Rightarrow> world \<times> frame" where
  "task t w =
     (let timeSinceLastCall = now w - lastCallTime w in
      if timeSinceLastCall < rateLimit w then
        let waitTime = rateLimit w - timeSinceLastCall
        in (w, IntervalWait t (now w) waitTime)
      else task_start t w)"

text \<open>Lines 97 to 101, entered at the loop test: the head task is shifted off and called, and
  runs up to its first \<^verbatim>\<open>await\<close>; an empty queue clears the flag and ends the activation
  (\<open>None\<close>).\<close>

definition drain :: "world \<Rightarrow> world \<times> frame option" where
  "drain w =
     (case queue w of
        [] \<Rightarrow> (w\<lparr>processing := False\<rparr>, None)
      | t # q \<Rightarrow> (case task t (w\<lparr>queue := q\<rparr>) of (w', f) \<Rightarrow> (w', Some f)))"

text \<open>Lines 67 to 71: how the task ends once \<^verbatim>\<open>retryWithBackoff\<close> has returned or thrown,
  after which \<^verbatim>\<open>await task()\<close> of line 99 resumes the loop.\<close>

definition task_end :: "nat \<Rightarrow> world \<times> ctl \<Rightarrow> world \<times> frame option" where
  "task_end t r =
     (case r of
        (w, Suspend f) \<Rightarrow> (w, Some f)
      | (w, Return v) \<Rightarrow> drain (w\<lparr>retryCount := 0, log := log w @ [Resolved t v]\<rparr>)
      | (w, Throw e) \<Rightarrow> drain (w\<lparr>log := log w @ [Rejected t e]\<rparr>))"

text \<open>Lines 93 to 96.\<close>

definition processQueue :: "world \<Rightarrow> world \<times> frame option" where
  "processQueue w =
     (if processing w \<or> queue w = [] then (w, None)
      else drain (w\<lparr>processing := True\<rparr>))"

text \<open>Lines 54 to 75: the task is pushed and \<^verbatim>\<open>processQueue\<close> is called; an activation that
  suspends joins the suspended ones.\<close>

definition execute :: "world \<Rightarrow> world" where
  "execute w =
     (let t = submitted w;
          (w', r) = processQueue (w\<lparr>queue := queue w @ [t], submitted := t + 1\<rparr>)
      in w'\<lparr>drains := drains w' @ (case r of None \<Rightarrow> [] | Some f \<Rightarrow> [f])\<rparr>)"

subsection \<open>The event loop\<close>

text \<open>
  The environment submits a job, lets time pass, fires the timer of the \<open>k\<close>th suspended
  activation, or settles the promise that activation awaits (\<open>Inl\<close> a thrown value, \<open>Inr\<close> a
  result).  The code never reads the clock again after a timer (line 65 only records it), so
  when a timer fires is the environment's choice alone: a \<open>Timer\<close> event resumes the
  activation whatever the clock shows.  Time passes by \<open>Elapse\<close> only, so the clock never
  goes back.  An event that no suspended activation waits for leaves the world as it is.
\<close>

datatype event =
    Submit
  | Elapse nat
  | Timer nat
  | Settle nat "js_value + js_value"

definition suspended :: "world \<times> frame \<Rightarrow> world \<times> frame option" where
  "suspended r = (case r of (w, f) \<Rightarrow> (w, Some f))"

definition put :: "nat \<Rightarrow> world \<times> frame option \<Rightarrow> world" where
  "put k r =
     (case r of
        (w, Some f) \<Rightarrow> w\<lparr>drains := (drains w)[k := f]\<rparr>
      | (w, None) \<Rightarrow> w\<lparr>drains := take k (drains w) @ drop (Suc k) (drains w)\<rparr>)"

definition resume :: "nat \<Rightarrow> frame \<Rightarrow> event \<Rightarrow> world \<Rightarrow> world" where
  "resume k f ev w =
     (case (f, ev) of
        (IntervalWait t s d, Timer _) \<Rightarrow> put k (suspended (task_start t w))
      | (BackoffWait t s d, Timer _) \<Rightarrow> put k (suspended (retryWithBackoff t w))
      | (FnAwait t, Settle _ outcome) \<Rightarrow> put k (task_end t (retryWithBackoff_settled t outcome w))
      | _ \<Rightarrow> w)"

definition step :: "world \<Rightarrow> event \<Rightarrow> world" where
  "step w ev =
     (case ev of
        Submit \<Rightarrow> execute w
      | Elapse d \<Rightarrow> w\<lparr>now := now w + int d\<rparr>
      | Timer k \<Rightarrow> if k < length (drains w) then resume k (drains w ! k) ev w else w
      | Settle k outcome \<Rightarrow> if k < length (drains w) then resume k (drains w ! k) ev w else w)"

definition run :: "world \<Rightarrow> event list \<Rightarrow> world" where
  "run w evs = foldl step w evs"

subsection \<open>The timers of Node\<close>

text \<open>
  \<^verbatim>\<open>setTimeout\<close> belongs to the platform.  Node sets a delay that is larger than
  2147483647 or less than 1 to 1, and promises no exact timing.  A timer event is \<open>on_time\<close>
  when the clock has reached the time of the call plus the delay Node took; a schedule is
  \<open>punctual\<close> when each of its timer events is.  Schedules that are not punctual are
  schedules all the same.
\<close>

definition node_delay :: "int \<Rightarrow> int" where
  "node_delay d = (if 1 \<le> d \<and> d \<le> 2147483647 then d else 1)"

fun expiry :: "frame \<Rightarrow> int option" where
  "expiry (IntervalWait t s d) = Some (s + node_delay d)"
| "expiry (FnAwait t) = None"
| "expiry (BackoffWait t s d) = Some (s + node_delay d)"

definition on_time :: "world \<Rightarrow> event \<Rightarrow> bool" where
  "on_time w ev =
     (case ev of
        Timer k \<Rightarrow>
          (if k < length (drains w)
           then (case expiry (drains w ! k) of None \<Rightarrow> True | Some e \<Rightarrow> e \<le> now w)
           else True)
      | _ \<Rightarrow> True)"

fun punctual :: "world \<Rightarrow> event list \<Rightarrow> bool" where
  "punctual w [] = True"
| "punctual w (ev # evs) = (on_time w ev \<and> punctual (step w ev) evs)"

subsection \<open>Reading the trace\<close>

text \<open>The tasks that reached line 65 with the clock value written there, the tasks whose
  promise was settled, the number of times the callable of task \<open>t\<close> was invoked, the clock
  values at which it was, and the backoff delays set for it, each in the order of the
  trace.\<close>

fun starts :: "obs list \<Rightarrow> (nat \<times> int) list" where
  "starts [] = []"
| "starts (Started t c # l) = (t, c) # starts l"
| "starts (_ # l) = starts l"

fun settled :: "obs list \<Rightarrow> nat list" where
  "settled [] = []"
| "settled (Resolved t v # l) = t # settled l"
| "settled (Rejected t e # l) = t # settled l"
| "settled (_ # l) = settled l"

fun invocations :: "nat \<Rightarrow> obs list \<Rightarrow> nat" where
  "invocations t [] = 0"
| "invocations t (Invoked u c # l) = (if u = t then 1 else 0) + invocations t l"
| "invocations t (_ # l) = invocations t l"

fun invoked_at :: "nat \<Rightarrow> obs list \<Rightarrow> int list" where
  "invoked_at t [] = []"
| "invoked_at t (Invoked u c # l) = (if u = t then [c] else []) @ invoked_at t l"
| "invoked_at t (_ # l) = invoked_at t l"

fun backoffs :: "nat \<Rightarrow> obs list \<Rightarrow> int list" where
  "backoffs t [] = []"
| "backoffs t (Backoff u d # l) = (if u = t then [d] else []) @ backoffs t l"
| "backoffs t (_ # l) = backoffs t l"

fun task_of :: "obs \<Rightarrow> nat" where
  "task_of (Started t c) = t"
| "task_of (Invoked t c) = t"
| "task_of (Backoff t d) = t"
| "task_of (Resolved t v) = t"
| "task_of (Rejected t e) = t"

text \<open>The task an activation has shifted off the queue and not yet brought to line 65.\<close>

fun dequeued :: "frame \<Rightarrow> nat list" where
  "dequeued (IntervalWait t s d) = [t]"
| "dequeued (FnAwait t) = []"
| "dequeued (BackoffWait t s d) = []"

subsection \<open>An environment that keeps its promises\<close>

text \<open>
  The queue has no timeout of its own: a callable whose promise never settles blocks it.  An
  environment that lets every timer fire when Node has it expire and settles every awaited
  promise, with an outcome of its choice, is one \<open>advance\<close> after the other; \<open>work\<close> bounds
  how many of them are left until the queue is drained (the 3 in it is the retry budget of
  line 50: a task takes at most one interval timer, four settlements and three backoff
  timers).
\<close>

definition advance :: "world \<Rightarrow> js_value + js_value \<Rightarrow> world" where
  "advance w outcome =
     (case drains w of
        [] \<Rightarrow> w
      | IntervalWait t s d # fs \<Rightarrow> run w [Elapse (nat (s + node_delay d - now w)), Timer 0]
      | BackoffWait t s d # fs \<Rightarrow> run w [Elapse (nat (s + node_delay d - now w)), Timer 0]
      | FnAwait t # fs \<Rightarrow> step w (Settle 0 outcome))"

fun weight :: "nat \<Rightarrow> frame list \<Rightarrow> nat" where
  "weight rc [] = 0"
| "weight rc (IntervalWait t s d # fs) = 8"
| "weight rc (FnAwait t # fs) = 2 * (3 - rc) + 1"
| "weight rc (BackoffWait t s d # fs) = 2 * (3 - rc) + 2"

definition work :: "world \<Rightarrow> nat" where
  "work w = weight (retryCount w) (drains w) + 9 * length (queue w)"

subsection \<open>What holds in every world the instance can reach\<close>

text \<open>
  The suspended activations are none (then the flag is down, the queue is empty and every
  submitted task has been settled) or exactly one (then the flag is up, and the task that
  activation is inside of sits between the settled tasks and the queued ones).  Tasks are
  numbered in submission order, so the started ones, the settled ones and the queue are
  intervals of the numbers.
\<close>

fun busy :: "world \<Rightarrow> frame list \<Rightarrow> bool" where
  "busy w [] \<longleftrightarrow>
     \<not> processing w \<and> queue w = [] \<and>
     length (starts (log w)) = submitted w \<and> length (settled (log w)) = submitted w"
| "busy w [IntervalWait t s d] \<longleftrightarrow>
     processing w \<and> queue w = [Suc t..<submitted w] \<and> t < submitted w \<and>
     length (starts (log w)) = t \<and> length (settled (log w)) = t \<and>
     s + d = lastCallTime w + rateLimit w \<and>
     (starts (log w) \<noteq> [] \<longrightarrow> 1 \<le> d \<and> d \<le> rateLimit w)"
| "busy w [FnAwait t] \<longleftrightarrow>
     processing w \<and> queue w = [Suc t..<submitted w] \<and> t < submitted w \<and>
     length (starts (log w)) = Suc t \<and> length (settled (log w)) = t \<and>
     invocations t (log w) = Suc (length (backoffs t (log w))) \<and>
     length (backoffs t (log w)) \<le> retryCount w"
| "busy w [BackoffWait t s d] \<longleftrightarrow>
     processing w \<and> queue w = [Suc t..<submitted w] \<and> t < submitted w \<and>
     length (starts (log w)) = Suc t \<and> length (settled (log w)) = t \<and>
     invocations t (log w) = length (backoffs t (log w)) \<and>
     length (backoffs t (log w)) \<le> retryCount w"
| "busy w (f # g # fs) \<longleftrightarrow> False"

text \<open>What the trace says of the callables: a settled task was invoked once and once more
  after each backoff, at most \<open>maxRetries\<close> of them; a started task was first invoked at the
  clock value of its start and never before it.\<close>

definition counted :: "obs list \<Rightarrow> bool" where
  "counted l \<longleftrightarrow>
     (\<forall>t < length (settled l). invocations t l = Suc (length (backoffs t l))) \<and>
     (\<forall>t < length (starts l). length (backoffs t l) \<le> 3)"

definition timed :: "obs list \<Rightarrow> bool" where
  "timed l \<longleftrightarrow>
     (\<forall>t < length (starts l).
        invoked_at t l \<noteq> [] \<and> hd (invoked_at t l) = snd (starts l ! t) \<and>
        (\<forall>c \<in> set (invoked_at t l). snd (starts l ! t) \<le> c))"

definition traced :: "int \<Rightarrow> world \<Rightarrow> bool" where
  "traced r w \<longleftrightarrow>
     rateLimit w = r \<and> maxRetries w = 3 \<and> retryCount w \<le> maxRetries w \<and>
     map fst (starts (log w)) = [0..<length (starts (log w))] \<and>
     settled (log w) = [0..<length (settled (log w))] \<and>
     lastCallTime w = (if starts (log w) = [] then 0 else snd (last (starts (log w)))) \<and>
     (starts (log w) \<noteq> [] \<longrightarrow> lastCallTime w \<le> now w) \<and>
     (\<forall>ob \<in> set (log w). task_of ob < length (starts (log w))) \<and>
     counted (log w) \<and> timed (log w)"

definition consistent :: "int \<Rightarrow> world \<Rightarrow> bool" where
  "consistent r w \<longleftrightarrow> traced r w \<and> busy w (drains w)"

text \<open>The spacing of the starts, which holds on punctual schedules only.\<close>

definition spaced :: "int \<Rightarrow> world \<Rightarrow> bool" where
  "spaced r w \<longleftrightarrow> successively (\<lambda>a b. r \<le> b - a) (map snd (starts (log w)))"

subsection \<open>Schedules used as examples\<close>

text \<open>Event sequences on which the properties below are instantiated.\<close>

definition two_jobs_waiting :: "event list" where
  "two_jobs_waiting = [Submit, Submit, Elapse 300, Settle 0 (Inr JNull)]"

definition two_jobs :: "event list" where
  "two_jobs = two_jobs_waiting @ [Elapse 1700, Timer 0]"

definition long_job :: "event list" where
  "long_job = [Submit, Submit, Elapse 5000]"

definition three_jobs :: "event list" where
  "three_jobs = [Submit, Submit, Submit, Settle 0 (Inr JNull)]"

definition three_submitted :: "event list" where
  "three_submitted = [Submit, Submit, Submit]"

definition one_running_two_queued :: "event list" where
  "one_running_two_queued = [Submit, Submit, Submit, Elapse 500]"

definition one_job :: "event list" where
  "one_job = [Submit, Elapse 40]"

definition storm :: "event list" where
  "storm =
     [Settle 0 (Inl (Error ''429 Too Many Requests'')),
      Elapse (2 ^ 1 * 1000 + 3), Timer 0, Elapse 25,
      Settle 0 (Inl (Error ''429 Too Many Requests'')),
      Elapse (2 ^ 2 * 1000 + 0), Timer 0, Elapse 30,
      Settle 0 (Inl (Error ''429 Too Many Requests'')),
      Elapse (2 ^ 3 * 1000 + 1), Timer 0, Elapse 20,
      Settle 0 (Inl (Error ''Request failed with status code 429''))]"

definition retried_once :: "event list" where
  "retried_once = [Submit, Submit, Settle 0 (Inl (Error ''429'')), Elapse 2000, Timer 0]"

definition exhausted_then_next :: "event list" where
  "exhausted_then_next =
     [Submit, Submit,
      Settle 0 (Inl (Error ''429'')), Elapse 2000, Timer 0,
      Settle 0 (Inl (Error ''429'')), Elapse 4000, Timer 0,
      Settle 0 (Inl (Error ''429'')), Elapse 8000, Timer 0,
      Settle 0 (Inl (Error ''429'')),
      Settle 0 (Inl (Error ''429''))]"

definition clamped_wait :: "event list" where
  "clamped_wait = [Submit, Submit, Settle 0 (Inr JNull), Elapse 1, Timer 0]"

definition early_timer :: "event list" where
  "early_timer = [Submit, Submit, Settle 0 (Inr JNull), Elapse 1999, Timer 0]"


section \<open>Properties of the step function\<close>

subsection \<open>Traces of concatenated logs\<close>

lemma starts_append [simp]: "starts (xs @ ys) = starts xs @ starts ys"
  by (induction xs rule: starts.induct) simp_all

lemma settled_append [simp]: "settled (xs @ ys) = settled xs @ settled ys"
  by (induction xs rule: settled.induct) simp_all

lemma invocations_append [simp]: "invocations t (xs @ ys) = invocations t xs + invocations t ys"
  by (induction t xs rule: invocations.induct) simp_all

lemma invoked_at_append [simp]: "invoked_at t (xs @ ys) = invoked_at t xs @ invoked_at t ys"
  by (induction t xs rule: invoked_at.induct) simp_all

lemma backoffs_append [simp]: "backoffs t (xs @ ys) = backoffs t xs @ backoffs t ys"
  by (induction t xs rule: backoffs.induct) simp_all

lemma length_invoked_at: "length (invoked_at t l) = invocations t l"
  by (induction t l rule: invoked_at.induct) simp_all

lemma fresh_task:
  "\<forall>ob \<in> set l. task_of ob < n \<Longrightarrow> n \<le> t \<Longrightarrow>
   invocations t l = 0 \<and> backoffs t l = [] \<and> invoked_at t l = []"
proof (induction l)
  case Nil
  show ?case by simp
next
  case (Cons ob l)
  then show ?case by (cases ob) auto
qed

subsection \<open>What one more observation does to the trace\<close>

lemma counted_start:
  assumes "counted l" and "\<forall>ob \<in> set l. task_of ob < length (starts l)"
    and "length (settled l) \<le> length (starts l)" and "j = length (starts l)"
  shows "counted (l @ [Started j c, Invoked j c])"
proof -
  from fresh_task [OF assms(2), of j] assms(4) have "backoffs j l = []" by simp
  with assms(1,3,4) show ?thesis by (auto simp: counted_def less_Suc_eq)
qed

lemma counted_invoke:
  "counted l \<Longrightarrow> length (settled l) \<le> t \<Longrightarrow> counted (l @ [Invoked t c])"
  by (auto simp: counted_def)

lemma counted_backoff:
  "counted l \<Longrightarrow> length (settled l) \<le> t \<Longrightarrow> length (backoffs t l) < 3 \<Longrightarrow>
   counted (l @ [Backoff t d])"
  by (auto simp: counted_def)

lemma counted_settle:
  assumes "counted l" and "t = length (settled l)"
    and "invocations t l = Suc (length (backoffs t l))"
    and "ob = Resolved t v \<or> ob = Rejected t e"
  shows "counted (l @ [ob])"
  using assms by (auto simp: counted_def less_Suc_eq)

lemma timed_start:
  assumes "timed l" and "\<forall>ob \<in> set l. task_of ob < length (starts l)"
    and "j = length (starts l)"
  shows "timed (l @ [Started j c, Invoked j c])"
proof -
  from fresh_task [OF assms(2), of j] assms(3) have "invoked_at j l = []" by simp
  with assms(1,3) show ?thesis by (auto simp: timed_def less_Suc_eq nth_append)
qed

lemma timed_invoke:
  assumes "timed l" and "t < length (starts l)" and "snd (starts l ! t) \<le> c"
  shows "timed (l @ [Invoked t c])"
  using assms by (auto simp: timed_def)

lemma timed_other:
  assumes "timed l" and "ob = Backoff t d \<or> ob = Resolved t v \<or> ob = Rejected t e"
  shows "timed (l @ [ob])"
  using assms by (auto simp: timed_def)

subsection \<open>Every event keeps the world consistent\<close>

lemma consistent_init: "consistent r (init r t0)"
  by (simp add: consistent_def traced_def counted_def timed_def init_def new_RateLimiter_def
      RateLimiter.extend_def)

lemma busy_cases:
  assumes "busy w fs"
  obtains "fs = []" | t s d where "fs = [IntervalWait t s d]" | t where "fs = [FnAwait t]"
    | t s d where "fs = [BackoffWait t s d]"
  using assms by (cases "(w, fs)" rule: busy.cases) auto

lemma task_unfold:
  "task t w =
     (if now w - lastCallTime w < rateLimit w
      then (w, IntervalWait t (now w) (rateLimit w - (now w - lastCallTime w)))
      else (w\<lparr>lastCallTime := now w, log := log w @ [Started t (now w), Invoked t (now w)]\<rparr>,
            FnAwait t))"
  by (simp add: task_def task_start_def retryWithBackoff_def Let_def)

lemma traced_fresh:
  "traced r w \<Longrightarrow> length (starts (log w)) \<le> t \<Longrightarrow>
   invocations t (log w) = 0 \<and> backoffs t (log w) = [] \<and> invoked_at t (log w) = []"
  by (rule fresh_task [where n = "length (starts (log w))"]) (simp_all add: traced_def)

lemma traced_last:
  assumes "traced r w" and "length (starts (log w)) = Suc t"
  shows "starts (log w) ! t = (t, lastCallTime w)" and "lastCallTime w \<le> now w"
proof -
  from assms(2) have ne: "starts (log w) \<noteq> []" by auto
  with assms(2) have l: "last (starts (log w)) = starts (log w) ! t"
    by (simp add: last_conv_nth)
  from assms have "map fst (starts (log w)) ! t = [0..<Suc t] ! t"
    by (simp add: traced_def)
  with assms(2) have "fst (starts (log w) ! t) = t" by (simp add: nth_append)
  moreover from assms(1) ne l have "snd (starts (log w) ! t) = lastCallTime w"
    by (simp add: traced_def)
  ultimately show "starts (log w) ! t = (t, lastCallTime w)" by (simp add: prod_eq_iff)
  from assms(1) ne show "lastCallTime w \<le> now w" by (simp add: traced_def)
qed

lemma traced_start:
  assumes "traced r w" and "t = length (starts (log w))"
    and "length (settled (log w)) \<le> t"
  shows "traced r (w\<lparr>lastCallTime := now w,
    log := log w @ [Started t (now w), Invoked t (now w)]\<rparr>)"
proof -
  from assms have "counted (log w @ [Started t (now w), Invoked t (now w)])"
    by (intro counted_start) (simp_all add: traced_def)
  moreover from assms have "timed (log w @ [Started t (now w), Invoked t (now w)])"
    by (intro timed_start) (simp_all add: traced_def)
  ultimately show ?thesis using assms(1,2) by (auto simp: traced_def less_Suc_eq)
qed

lemma traced_invoke:
  assumes "traced r w" and "length (starts (log w)) = Suc t"
    and "length (settled (log w)) \<le> t"
  shows "traced r (w\<lparr>log := log w @ [Invoked t (now w)]\<rparr>)"
proof -
  from assms have "counted (log w @ [Invoked t (now w)])"
    by (intro counted_invoke) (simp_all add: traced_def)
  moreover from traced_last [OF assms(1,2)] assms(1,2)
  have "timed (log w @ [Invoked t (now w)])"
    by (intro timed_invoke) (simp_all add: traced_def)
  ultimately show ?thesis using assms(1,2) by (auto simp: traced_def)
qed

lemma traced_backoff:
  assumes "traced r w" and "length (starts (log w)) = Suc t"
    and "length (settled (log w)) \<le> t"
    and "retryCount w < 3" and "length (backoffs t (log w)) \<le> retryCount w"
  shows "traced r (w\<lparr>retryCount := Suc (retryCount w), log := log w @ [Backoff t d]\<rparr>)"
proof -
  from assms have "counted (log w @ [Backoff t d])"
    by (intro counted_backoff) (simp_all add: traced_def)
  moreover from assms(1) have "timed (log w @ [Backoff t d])"
    by (intro timed_other [where t = t and d = d]) (simp_all add: traced_def)
  ultimately show ?thesis using assms(1,2,4) by (auto simp: traced_def)
qed

lemma traced_settle:
  assumes "traced r w" and "length (starts (log w)) = Suc t"
    and "length (settled (log w)) = t"
    and "invocations t (log w) = Suc (length (backoffs t (log w)))"
    and "rc \<le> 3" and "ob = Resolved t v \<or> ob = Rejected t e"
  shows "traced r (w\<lparr>retryCount := rc, log := log w @ [ob]\<rparr>)"
proof -
  from assms have "counted (log w @ [ob])"
    by (intro counted_settle [where t = t and v = v and e = e]) (simp_all add: traced_def)
  moreover from assms(1,6) have "timed (log w @ [ob])"
    by (intro timed_other [where t = t and v = v and e = e]) (auto simp: traced_def)
  ultimately show ?thesis using assms(1,2,3,5,6) by (auto simp: traced_def)
qed

lemma busy_drains_upd [simp]: "busy (w\<lparr>drains := ds\<rparr>) fs = busy w fs"
  by (cases "(w, fs)" rule: busy.cases) simp_all

lemma traced_drains_upd [simp]: "traced r (w\<lparr>drains := ds\<rparr>) = traced r w"
  by (simp add: traced_def)

lemma busy_now_upd [simp]: "busy (w\<lparr>now := c\<rparr>) fs = busy w fs"
  by (cases "(w, fs)" rule: busy.cases) simp_all

lemma traced_queue_upd [simp]: "traced r (w\<lparr>queue := q\<rparr>) = traced r w"
  by (simp add: traced_def)

lemma traced_submitted_upd [simp]: "traced r (w\<lparr>submitted := n\<rparr>) = traced r w"
  by (simp add: traced_def)

lemma traced_processing_upd [simp]: "traced r (w\<lparr>processing := b\<rparr>) = traced r w"
  by (simp add: traced_def)

lemma traced_Elapse: "traced r w \<Longrightarrow> traced r (w\<lparr>now := now w + int d\<rparr>)"
  by (auto simp: traced_def)

lemma drain_between:
  assumes tr: "traced r w" and pr: "processing w"
    and len: "length (settled (log w)) = length (starts (log w))"
    and qu: "queue w = [length (starts (log w))..<submitted w]"
    and le: "length (starts (log w)) \<le> submitted w"
  shows "traced r (fst (drain w)) \<and>
         busy (fst (drain w)) (case snd (drain w) of None \<Rightarrow> [] | Some f \<Rightarrow> [f]) \<and>
         drains (fst (drain w)) = drains w"
proof (cases "queue w")
  case Nil
  with qu have "[length (starts (log w))..<submitted w] = []" by simp
  with le have "length (starts (log w)) = submitted w" by auto
  with Nil tr len show ?thesis by (simp add: drain_def)
next
  case (Cons t q)
  with qu have "[length (starts (log w))..<submitted w] = t # q" by simp
  then have t: "t = length (starts (log w))" and q: "q = [Suc t..<submitted w]"
    and lt: "t < submitted w"
    by (auto simp: upt_eq_Cons_conv)
  have rl: "rateLimit w = r" using tr by (simp add: traced_def)
  show ?thesis
  proof (cases "now w - lastCallTime w < rateLimit w")
    case True
    from tr have "starts (log w) \<noteq> [] \<longrightarrow> lastCallTime w \<le> now w"
      unfolding traced_def by blast
    with True Cons t q lt tr pr len show ?thesis
      by (auto simp: drain_def task_unfold)
  next
    case False
    have "traced r (w\<lparr>queue := q, lastCallTime := now w,
        log := log w @ [Started t (now w), Invoked t (now w)]\<rparr>)"
      using traced_start [of r "w\<lparr>queue := q\<rparr>" t] tr t len by simp
    moreover have "invocations t (log w) = 0 \<and> backoffs t (log w) = []"
      using traced_fresh [OF tr, of t] t by simp
    ultimately show ?thesis
      using Cons False t q lt pr len by (simp add: drain_def task_unfold)
  qed
qed

lemma consistent_Elapse: "consistent r w \<Longrightarrow> consistent r (step w (Elapse d))"
  by (simp add: consistent_def step_def traced_Elapse)

lemma processing_Submit:
  "processing w \<Longrightarrow>
   step w Submit = w\<lparr>queue := queue w @ [submitted w], submitted := Suc (submitted w)\<rparr>"
  by (simp add: step_def execute_def processQueue_def Let_def)

lemma busy_Submit:
  assumes "busy w fs" and "fs \<noteq> []"
  shows "busy (w\<lparr>queue := queue w @ [submitted w], submitted := Suc (submitted w)\<rparr>) fs"
  using assms(1) by (cases rule: busy_cases) (use assms in auto)

lemma idle_Submit:
  assumes "\<not> processing w" and "queue w = []"
  shows "step w Submit =
    (fst (drain (w\<lparr>queue := [submitted w], submitted := Suc (submitted w),
        processing := True\<rparr>)))
     \<lparr>drains := drains w @
        (case snd (drain (w\<lparr>queue := [submitted w], submitted := Suc (submitted w),
            processing := True\<rparr>)) of None \<Rightarrow> [] | Some f \<Rightarrow> [f])\<rparr>"
proof -
  have "drains (fst (drain v)) = drains v" for v
    by (simp add: drain_def task_unfold split: list.split)
  from this [of "w\<lparr>queue := [submitted w], submitted := Suc (submitted w),
        processing := True\<rparr>"] assms
  show ?thesis by (simp add: step_def execute_def processQueue_def split_beta Let_def)
qed

lemma consistent_Submit: "consistent r w \<Longrightarrow> consistent r (step w Submit)"
proof -
  assume c: "consistent r w"
  then have b: "busy w (drains w)" and tr: "traced r w" by (simp_all add: consistent_def)
  show ?thesis
  proof (cases "drains w = []")
    case True
    let ?w1 = "w\<lparr>queue := [submitted w], submitted := Suc (submitted w),
      processing := True\<rparr>"
    from True b have idle: "\<not> processing w" "queue w = []"
      "length (starts (log w)) = submitted w" "length (settled (log w)) = submitted w"
      by simp_all
    have "traced r ?w1" using tr by simp
    then have d: "traced r (fst (drain ?w1)) \<and>
         busy (fst (drain ?w1)) (case snd (drain ?w1) of None \<Rightarrow> [] | Some f \<Rightarrow> [f]) \<and>
         drains (fst (drain ?w1)) = drains ?w1"
      by (rule drain_between) (use idle in simp_all)
    with True idle_Submit [OF idle(1,2)] show ?thesis by (simp add: consistent_def)
  next
    case False
    from b have "processing w" by (cases rule: busy_cases) (use b False in auto)
    then have "step w Submit =
        w\<lparr>queue := queue w @ [submitted w], submitted := Suc (submitted w)\<rparr>"
      by (rule processing_Submit)
    moreover from b False
    have "busy (w\<lparr>queue := queue w @ [submitted w], submitted := Suc (submitted w)\<rparr>) (drains w)"
      by (rule busy_Submit)
    ultimately show ?thesis using tr by (simp add: consistent_def)
  qed
qed

lemma busy_length: "busy w fs \<Longrightarrow> length fs \<le> 1"
  by (erule busy_cases) simp_all

lemma drain_drains [simp]: "drains (fst (drain w)) = drains w"
  by (simp add: drain_def task_unfold split: list.split)

lemma put_drain:
  "drains w = [f0] \<Longrightarrow>
   put 0 (drain w) = (fst (drain w))\<lparr>drains := (case snd (drain w) of None \<Rightarrow> [] | Some f \<Rightarrow> [f])\<rparr>"
proof -
  assume f: "drains w = [f0]"
  obtain a fo where d: "drain w = (a, fo)" by (cases "drain w")
  have "drains a = drains w" using drain_drains [of w] d by simp
  with f d show ?thesis by (cases fo) (simp_all add: put_def)
qed

lemma step_Timer_interval:
  "drains w = [IntervalWait t s d] \<Longrightarrow>
   step w (Timer 0) =
     w\<lparr>lastCallTime := now w, log := log w @ [Started t (now w), Invoked t (now w)],
       drains := [FnAwait t]\<rparr>"
  by (simp add: step_def resume_def put_def suspended_def task_start_def retryWithBackoff_def)

lemma step_Timer_backoff:
  "drains w = [BackoffWait t s d] \<Longrightarrow>
   step w (Timer 0) = w\<lparr>log := log w @ [Invoked t (now w)], drains := [FnAwait t]\<rparr>"
  by (simp add: step_def resume_def put_def suspended_def retryWithBackoff_def)

lemma step_Settle_resolved:
  "drains w = [FnAwait t] \<Longrightarrow>
   step w (Settle 0 (Inr v)) = put 0 (drain (w\<lparr>retryCount := 0, log := log w @ [Resolved t v]\<rparr>))"
  by (simp add: step_def resume_def retryWithBackoff_settled_def task_end_def)

lemma step_Settle_retry:
  "drains w = [FnAwait t] \<Longrightarrow> rate_limited e = Some True \<Longrightarrow> retryCount w < maxRetries w \<Longrightarrow>
   step w (Settle 0 (Inl e)) =
     w\<lparr>retryCount := Suc (retryCount w),
       log := log w @ [Backoff t (2 ^ Suc (retryCount w) * 1000)],
       drains := [BackoffWait t (now w) (2 ^ Suc (retryCount w) * 1000)]\<rparr>"
  by (simp add: step_def resume_def retryWithBackoff_settled_def task_end_def put_def Let_def)

lemma step_Settle_thrown:
  "drains w = [FnAwait t] \<Longrightarrow> rate_limited e = Some b \<Longrightarrow> \<not> (b \<and> retryCount w < maxRetries w) \<Longrightarrow>
   step w (Settle 0 (Inl e)) = put 0 (drain (w\<lparr>log := log w @ [Rejected t (Underlying e)]\<rparr>))"
  by (cases b) (simp_all add: step_def resume_def retryWithBackoff_settled_def task_end_def)

lemma step_Settle_type_error:
  "drains w = [FnAwait t] \<Longrightarrow> rate_limited e = None \<Longrightarrow>
   step w (Settle 0 (Inl e)) = put 0 (drain (w\<lparr>log := log w @ [Rejected t DetectionTypeError]\<rparr>))"
  by (simp add: step_def resume_def retryWithBackoff_settled_def task_end_def)

lemma step_Timer_beyond: "length (drains w) \<le> k \<Longrightarrow> step w (Timer k) = w"
  by (simp add: step_def)

lemma step_Timer_await: "drains w = [FnAwait t] \<Longrightarrow> step w (Timer k) = w"
  by (simp add: step_def resume_def)

lemma step_Settle_beyond: "length (drains w) \<le> k \<Longrightarrow> step w (Settle k out) = w"
  by (simp add: step_def)

lemma step_Settle_interval: "drains w = [IntervalWait t s d] \<Longrightarrow> step w (Settle k out) = w"
  by (simp add: step_def resume_def)

lemma step_Settle_backoff: "drains w = [BackoffWait t s d] \<Longrightarrow> step w (Settle k out) = w"
  by (simp add: step_def resume_def)

lemma consistent_finish:
  assumes tr: "traced r w" and pr: "processing w" and f: "drains w = [f0]"
    and len: "length (settled (log w)) = length (starts (log w))"
    and qu: "queue w = [length (starts (log w))..<submitted w]"
    and le: "length (starts (log w)) \<le> submitted w"
  shows "consistent r (put 0 (drain w))"
  using drain_between [OF tr pr len qu le] by (simp add: put_drain [OF f] consistent_def)

lemma consistent_Timer:
  assumes c: "consistent r w" shows "consistent r (step w (Timer k))"
proof -
  from c have b: "busy w (drains w)" and tr: "traced r w" by (simp_all add: consistent_def)
  show ?thesis
  proof (cases "k = 0")
    case False
    with busy_length [OF b] have "step w (Timer k) = w" by (simp add: step_Timer_beyond)
    with c show ?thesis by simp
  next
    case True
    from b show ?thesis
    proof (cases rule: busy_cases)
      case 1
      then have "step w (Timer k) = w" by (simp add: step_Timer_beyond)
      with c show ?thesis by simp
    next
      case (2 t s d)
      from 2 b have bb: "processing w" "queue w = [Suc t..<submitted w]" "t < submitted w"
        "length (starts (log w)) = t" "length (settled (log w)) = t" by simp_all
      from tr bb have "traced r (w\<lparr>lastCallTime := now w,
          log := log w @ [Started t (now w), Invoked t (now w)]\<rparr>)"
        by (intro traced_start) simp_all
      moreover have "invocations t (log w) = 0 \<and> backoffs t (log w) = []"
        using traced_fresh [OF tr, of t] bb by simp
      ultimately show ?thesis
        using 2 True bb by (simp add: step_Timer_interval consistent_def)
    next
      case (3 t)
      then have "step w (Timer k) = w" by (simp add: step_Timer_await)
      with c show ?thesis by simp
    next
      case (4 t s d)
      from 4 b have bb: "processing w" "queue w = [Suc t..<submitted w]" "t < submitted w"
        "length (starts (log w)) = Suc t" "length (settled (log w)) = t"
        "invocations t (log w) = length (backoffs t (log w))"
        "length (backoffs t (log w)) \<le> retryCount w" by simp_all
      from tr bb have "traced r (w\<lparr>log := log w @ [Invoked t (now w)]\<rparr>)"
        by (intro traced_invoke) simp_all
      with 4 True bb show ?thesis by (simp add: step_Timer_backoff consistent_def)
    qed
  qed
qed

lemma consistent_Settle:
  assumes c: "consistent r w" shows "consistent r (step w (Settle k out))"
proof -
  from c have b: "busy w (drains w)" and tr: "traced r w" by (simp_all add: consistent_def)
  show ?thesis
  proof (cases "k = 0")
    case False
    with busy_length [OF b] have "step w (Settle k out) = w" by (simp add: step_Settle_beyond)
    with c show ?thesis by simp
  next
    case True
    from b show ?thesis
    proof (cases rule: busy_cases)
      case 1
      then have "step w (Settle k out) = w" by (simp add: step_Settle_beyond)
      with c show ?thesis by simp
    next
      case (2 t s d)
      then have "step w (Settle k out) = w" by (simp add: step_Settle_interval)
      with c show ?thesis by simp
    next
      case (4 t s d)
      then have "step w (Settle k out) = w" by (simp add: step_Settle_backoff)
      with c show ?thesis by simp
    next
      case (3 t)
      with b have bb: "processing w" "queue w = [Suc t..<submitted w]" "t < submitted w"
          "length (starts (log w)) = Suc t" "length (settled (log w)) = t"
          "invocations t (log w) = Suc (length (backoffs t (log w)))"
          "length (backoffs t (log w)) \<le> retryCount w" by simp_all
      have fin: "consistent r (put 0 (drain (w\<lparr>retryCount := rc, log := log w @ [ob]\<rparr>)))"
        if "rc \<le> 3" "ob = Resolved t v \<or> ob = Rejected t e" for rc ob v e
      proof (rule consistent_finish)
        show "traced r (w\<lparr>retryCount := rc, log := log w @ [ob]\<rparr>)"
          using tr bb that by (intro traced_settle [where v = v and e = e]) simp_all
      qed (use 3 bb that in auto)
      show ?thesis
      proof (cases out)
        case (Inr v)
        with 3 True fin [of 0 "Resolved t v" v] show ?thesis
          by (simp add: step_Settle_resolved)
      next
        case (Inl e)
        from tr have rc: "retryCount w \<le> 3" "maxRetries w = 3" by (simp_all add: traced_def)
        show ?thesis
        proof (cases "rate_limited e")
          case None
          with 3 True Inl rc
            fin [of "retryCount w" "Rejected t DetectionTypeError" _ DetectionTypeError]
          show ?thesis by (simp add: step_Settle_type_error)
        next
          case (Some m)
          show ?thesis
          proof (cases "m \<and> retryCount w < maxRetries w")
            case False
            with 3 True Inl Some rc
              fin [of "retryCount w" "Rejected t (Underlying e)" _ "Underlying e"]
            show ?thesis
              by (simp add: step_Settle_thrown [where b = m])
          next
            case yes: True
            with Some have s: "rate_limited e = Some True" by simp
            have "traced r (w\<lparr>retryCount := Suc (retryCount w),
                log := log w @ [Backoff t (2 ^ Suc (retryCount w) * 1000)]\<rparr>)"
              using tr yes bb rc by (intro traced_backoff) simp_all
            with 3 True Inl yes bb show ?thesis
              by (simp add: step_Settle_retry [OF _ s] consistent_def)
          qed
        qed
      qed
    qed
  qed
qed

lemma consistent_step: "consistent r w \<Longrightarrow> consistent r (step w ev)"
  by (cases ev) (simp_all add: consistent_Submit consistent_Elapse consistent_Timer consistent_Settle)

lemma consistent_run: "consistent r w \<Longrightarrow> consistent r (run w evs)"
  unfolding run_def by (induction evs arbitrary: w) (simp_all add: consistent_step)

lemma consistent_reach: "consistent r (run (init r t0) evs)"
  by (simp add: consistent_run consistent_init)


subsection \<open>Reading the log of a step\<close>

lemma successively_nth:
  "successively P xs \<Longrightarrow> Suc i < length xs \<Longrightarrow> P (xs ! i) (xs ! Suc i)"
proof (induction xs arbitrary: i)
  case Nil
  then show ?case by simp
next
  case (Cons x xs)
  then show ?case by (cases i; cases xs) auto
qed

lemma drain_log:
  "log (fst (drain w)) =
     log w @ (case queue w of [] \<Rightarrow> []
       | j # q \<Rightarrow> if now w - lastCallTime w < rateLimit w then []
                  else [Started j (now w), Invoked j (now w)])"
  by (simp add: drain_def task_unfold split: list.split)

lemma log_put [simp]: "log (put k p) = log (fst p)"
  by (cases p) (simp add: put_def split: option.split)

subsection \<open>Progress\<close>

lemma submitted_drain [simp]: "submitted (fst (drain w)) = submitted w"
  by (simp add: drain_def task_unfold split: list.split)

lemma submitted_put [simp]: "submitted (put k p) = submitted (fst p)"
  by (cases p) (simp add: put_def split: option.split)

lemma submitted_resume: "submitted (resume k f ev w) = submitted w"
proof (cases f)
  case (IntervalWait t s d)
  then show ?thesis
    by (cases ev) (simp_all add: resume_def suspended_def task_start_def retryWithBackoff_def)
next
  case (FnAwait t)
  show ?thesis
  proof (cases ev)
    case (Settle k' out)
    with FnAwait show ?thesis
      by (simp add: resume_def retryWithBackoff_settled_def task_end_def Let_def
          split: sum.split option.split)
  qed (simp_all add: FnAwait resume_def)
next
  case (BackoffWait t s d)
  then show ?thesis
    by (cases ev) (simp_all add: resume_def suspended_def retryWithBackoff_def)
qed

lemma submitted_step: "ev \<noteq> Submit \<Longrightarrow> submitted (step w ev) = submitted w"
  by (cases ev) (simp_all add: step_def submitted_resume)

lemma submitted_advance [simp]: "submitted (advance w out) = submitted w"
  by (simp add: advance_def run_def submitted_step split: list.split frame.split)

lemma consistent_advance: "consistent r w \<Longrightarrow> consistent r (advance w out)"
  by (simp add: advance_def consistent_step consistent_run split: list.split frame.split)

lemma weight_le: "weight rc fs \<le> 8"
  by (cases "(rc, fs)" rule: weight.cases) simp_all

lemma work_le: "work w \<le> 9 * Suc (length (queue w))"
  using weight_le [of "retryCount w" "drains w"] by (simp add: work_def)

lemma work_finish:
  assumes "drains w = [f0]"
  shows "work (put 0 (drain w)) < Suc (9 * length (queue w))"
proof (cases "queue w")
  case Nil
  with assms show ?thesis by (simp add: drain_def put_def work_def)
next
  case (Cons j q)
  have "weight rc [f] \<le> 8" for rc f by (rule weight_le)
  with Cons assms show ?thesis
    by (auto simp: drain_def put_def work_def task_unfold)
qed

lemma work_advance:
  assumes c: "consistent r w" and ne: "drains w \<noteq> []"
  shows "work (advance w out) < work w"
proof -
  from c have b: "busy w (drains w)" and tr: "traced r w" by (simp_all add: consistent_def)
  from b show ?thesis
  proof (cases rule: busy_cases)
    case 1
    with ne show ?thesis by simp
  next
    case (2 t s d)
    then show ?thesis
      by (simp add: advance_def run_def step_def [of _ "Elapse _"] step_Timer_interval work_def)
  next
    case (4 t s d)
    then show ?thesis
      by (simp add: advance_def run_def step_def [of _ "Elapse _"] step_Timer_backoff work_def)
  next
    case (3 t)
    have fin: "work (put 0 (drain (w\<lparr>retryCount := rc, log := l\<rparr>))) < work w" for rc l
      using work_finish [of "w\<lparr>retryCount := rc, log := l\<rparr>" "FnAwait t"] 3
      by (simp add: work_def)
    show ?thesis
    proof (cases out)
      case (Inr v)
      with 3 fin [where rc = 0] show ?thesis by (simp add: advance_def step_Settle_resolved)
    next
      case (Inl e)
      show ?thesis
      proof (cases "rate_limited e")
        case None
        with 3 Inl fin [where rc = "retryCount w"] show ?thesis
          by (simp add: advance_def step_Settle_type_error)
      next
        case (Some m)
        show ?thesis
        proof (cases "m \<and> retryCount w < maxRetries w")
          case False
          with 3 Inl Some fin [where rc = "retryCount w"] show ?thesis
            by (simp add: advance_def step_Settle_thrown [where b = m])
        next
          case True
          with Some have s: "rate_limited e = Some True" by simp
          from tr have "maxRetries w = 3" by (simp add: traced_def)
          with 3 Inl True show ?thesis
            by (auto simp: advance_def step_Settle_retry [OF _ s] work_def)
        qed
      qed
    qed
  qed
qed

lemma drive_drains:
  "consistent r w \<Longrightarrow> work w \<le> length os \<Longrightarrow> drains (foldl advance w os) = []"
proof (induction os arbitrary: w)
  case Nil
  then have "weight (retryCount w) (drains w) = 0" by (simp add: work_def)
  then show ?case by (cases "(retryCount w, drains w)" rule: weight.cases) simp_all
next
  case (Cons out os)
  show ?case
  proof (cases "drains w = []")
    case True
    with Cons.prems have "queue w = []" by (simp add: consistent_def)
    with True have "work (advance w out) = 0" by (simp add: advance_def work_def)
    with Cons.IH [of "advance w out"] Cons.prems show ?thesis
      by (simp add: consistent_advance)
  next
    case False
    with Cons.prems have "work (advance w out) < work w" by (intro work_advance)
    with Cons.IH [of "advance w out"] Cons.prems show ?thesis
      by (simp add: consistent_advance)
  qed
qed

lemma submitted_drive [simp]: "submitted (foldl advance w os) = submitted w"
  by (induction os arbitrary: w) simp_all

lemma consistent_drive: "consistent r w \<Longrightarrow> consistent r (foldl advance w os)"
  by (induction os arbitrary: w) (simp_all add: consistent_advance)

lemma drive_complete:
  assumes c: "consistent r w" and n: "9 * Suc (length (queue w)) \<le> length os"
  shows "drains (foldl advance w os) = [] \<and> \<not> processing (foldl advance w os) \<and>
    queue (foldl advance w os) = [] \<and>
    map fst (starts (log (foldl advance w os))) = [0..<submitted w] \<and>
    settled (log (foldl advance w os)) = [0..<submitted w]"
proof -
  from n work_le [of w] have "work w \<le> length os" by simp
  with c have d: "drains (foldl advance w os) = []" by (rule drive_drains)
  from c have "consistent r (foldl advance w os)" by (rule consistent_drive)
  with d have t: "traced r (foldl advance w os)" and b: "busy (foldl advance w os) []"
    by (simp_all add: consistent_def)
  from b have l: "length (starts (log (foldl advance w os))) = submitted w"
    "length (settled (log (foldl advance w os))) = submitted w" by simp_all
  from t have "map fst (starts (log (foldl advance w os))) =
      [0..<length (starts (log (foldl advance w os)))]"
    and "settled (log (foldl advance w os)) = [0..<length (settled (log (foldl advance w os)))]"
    by (simp_all add: traced_def)
  with l have "map fst (starts (log (foldl advance w os))) = [0..<submitted w]"
    and "settled (log (foldl advance w os)) = [0..<submitted w]" by simp_all
  with d b show ?thesis by simp
qed

subsection \<open>A settled task is left alone\<close>

lemma later_task:
  "\<forall>ob \<in> set l. n \<le> task_of ob \<Longrightarrow> t < n \<Longrightarrow> invocations t l = 0 \<and> backoffs t l = []"
proof (induction l)
  case Nil
  show ?case by simp
next
  case (Cons ob l)
  then show ?case by (cases ob) auto
qed

lemma drain_log_later:
  assumes "queue w = [Suc t..<submitted w]"
  shows "\<exists>new. log (fst (drain w)) = log w @ new \<and> (\<forall>ob \<in> set new. Suc t \<le> task_of ob)"
proof (cases "queue w")
  case Nil
  then show ?thesis by (simp add: drain_log)
next
  case (Cons j q)
  with assms have "[Suc t..<submitted w] = j # q" by simp
  then have "j = Suc t" by (auto simp: upt_eq_Cons_conv)
  with Cons show ?thesis by (simp add: drain_log)
qed

lemma step_log:
  assumes c: "consistent r w"
  shows "\<exists>new. log (step w ev) = log w @ new \<and>
           (\<forall>ob \<in> set new. length (settled (log w)) \<le> task_of ob)"
proof -
  from c have b: "busy w (drains w)" and tr: "traced r w" by (simp_all add: consistent_def)
  have same: ?thesis if "step w ev = w" using that by simp
  from b show ?thesis
  proof (cases rule: busy_cases)
    case 1
    with b have idle: "\<not> processing w" "queue w = []"
      "length (settled (log w)) = submitted w" by simp_all
    show ?thesis
    proof (cases ev)
      case Submit
      with idle show ?thesis
        by (simp add: step_def execute_def processQueue_def Let_def split_beta
            drain_log)
    next
      case (Elapse d)
      then show ?thesis by (simp add: step_def)
    next
      case (Timer k)
      with 1 show ?thesis by (intro same) (simp add: step_Timer_beyond)
    next
      case (Settle k out)
      with 1 show ?thesis by (intro same) (simp add: step_Settle_beyond)
    qed
  next
    case (2 t s d)
    with b have bb: "processing w" "length (settled (log w)) = t" by simp_all
    show ?thesis
    proof (cases ev)
      case Submit
      with bb show ?thesis by (simp add: step_def execute_def processQueue_def Let_def)
    next
      case (Elapse d)
      then show ?thesis by (simp add: step_def)
    next
      case (Timer k)
      show ?thesis
      proof (cases "k = 0")
        case True
        with 2 Timer bb show ?thesis by (simp add: step_Timer_interval)
      next
        case False
        with 2 Timer show ?thesis by (intro same) (simp add: step_Timer_beyond)
      qed
    next
      case (Settle k out)
      with 2 show ?thesis by (intro same) (simp add: step_Settle_interval)
    qed
  next
    case (4 t s d)
    with b have bb: "processing w" "length (settled (log w)) = t" by simp_all
    show ?thesis
    proof (cases ev)
      case Submit
      with bb show ?thesis by (simp add: step_def execute_def processQueue_def Let_def)
    next
      case (Elapse d)
      then show ?thesis by (simp add: step_def)
    next
      case (Timer k)
      show ?thesis
      proof (cases "k = 0")
        case True
        with 4 Timer bb show ?thesis by (simp add: step_Timer_backoff)
      next
        case False
        with 4 Timer show ?thesis by (intro same) (simp add: step_Timer_beyond)
      qed
    next
      case (Settle k out)
      with 4 show ?thesis by (intro same) (simp add: step_Settle_backoff)
    qed
  next
    case (3 t)
    with b have bb: "processing w" "length (settled (log w)) = t"
      "queue w = [Suc t..<submitted w]" by simp_all
    have fin: "\<exists>new. log (put 0 (drain (w\<lparr>retryCount := rc, log := log w @ [ob]\<rparr>))) = log w @ new \<and>
           (\<forall>ob \<in> set new. t \<le> task_of ob)" if "task_of ob = t" for rc ob
    proof -
      from drain_log_later [of "w\<lparr>retryCount := rc, log := log w @ [ob]\<rparr>" t] bb
      obtain new where "log (fst (drain (w\<lparr>retryCount := rc, log := log w @ [ob]\<rparr>))) =
          log w @ ob # new" and "\<forall>ob \<in> set new. Suc t \<le> task_of ob" by auto
      with that show ?thesis by (intro exI [of _ "ob # new"]) auto
    qed
    show ?thesis
    proof (cases ev)
      case Submit
      with bb show ?thesis by (simp add: step_def execute_def processQueue_def Let_def)
    next
      case (Elapse d)
      then show ?thesis by (simp add: step_def)
    next
      case (Timer k)
      with 3 show ?thesis by (intro same) (simp add: step_Timer_await)
    next
      case (Settle k out)
      show ?thesis
      proof (cases "k = 0")
        case False
        with 3 Settle show ?thesis by (intro same) (simp add: step_Settle_beyond)
      next
        case True
        show ?thesis
        proof (cases out)
          case (Inr v)
          with 3 True Settle bb fin [of "Resolved t v" 0] show ?thesis
            by (simp add: step_Settle_resolved)
        next
          case (Inl e)
          show ?thesis
          proof (cases "rate_limited e")
            case None
            with 3 True Settle Inl bb fin [of "Rejected t DetectionTypeError" "retryCount w"]
            show ?thesis by (simp add: step_Settle_type_error)
          next
            case (Some m)
            show ?thesis
            proof (cases "m \<and> retryCount w < maxRetries w")
              case False
              with 3 True Settle Inl Some bb fin [of "Rejected t (Underlying e)" "retryCount w"]
              show ?thesis by (simp add: step_Settle_thrown [where b = m])
            next
              case yes: True
              with Some have s: "rate_limited e = Some True" by simp
              with 3 True Settle Inl yes bb show ?thesis
                by (simp add: step_Settle_retry [OF _ s])
            qed
          qed
        qed
      qed
    qed
  qed
qed

lemma frozen_step:
  assumes "consistent r w" and "t < length (settled (log w))"
  shows "invocations t (log (step w ev)) = invocations t (log w) \<and>
         backoffs t (log (step w ev)) = backoffs t (log w) \<and>
         t < length (settled (log (step w ev)))"
proof -
  from step_log [OF assms(1), of ev] obtain new where
    n: "log (step w ev) = log w @ new" "\<forall>ob \<in> set new. length (settled (log w)) \<le> task_of ob"
    by blast
  from later_task [OF n(2) assms(2)] n(1) assms(2) show ?thesis by simp
qed

lemma frozen_run:
  "consistent r w \<Longrightarrow> t < length (settled (log w)) \<Longrightarrow>
   invocations t (log (run w evs)) = invocations t (log w) \<and>
   backoffs t (log (run w evs)) = backoffs t (log w)"
proof (induction evs arbitrary: w)
  case Nil
  show ?case by (simp add: run_def)
next
  case (Cons ev evs)
  from frozen_step [OF Cons.prems, of ev] Cons.IH [of "step w ev"] Cons.prems(1)
  show ?case by (simp add: run_def consistent_step)
qed

subsection \<open>The step that ends a task\<close>

lemma drain_queue:
  "queue (fst (drain w)) = tl (queue w)" "processing (fst (drain w)) = (processing w \<and> queue w \<noteq> [])"
  "snd (drain w) = (case queue w of [] \<Rightarrow> None
     | j # q \<Rightarrow> Some (if now w - lastCallTime w < rateLimit w
         then IntervalWait j (now w) (rateLimit w - (now w - lastCallTime w)) else FnAwait j))"
  by (simp_all add: drain_def task_unfold split: list.split)

lemma settled_drain: "settled (log (fst (drain w))) = settled (log w)"
  by (simp add: drain_log split: list.split)

lemma put0_fields:
  "queue (put 0 p) = queue (fst p)" "processing (put 0 p) = processing (fst p)"
  "retryCount (put 0 p) = retryCount (fst p)" "lastCallTime (put 0 p) = lastCallTime (fst p)"
  by (cases p; simp add: put_def split: option.split)+

lemma step_Settle_final:
  assumes "drains w = [FnAwait t]"
    and "\<not> (rate_limited error = Some True \<and> retryCount w < maxRetries w)"
  shows "step w (Settle 0 (Inl error)) =
     put 0 (drain (w\<lparr>log := log w @
       [Rejected t (case rate_limited error of None \<Rightarrow> DetectionTypeError
                    | Some b \<Rightarrow> Underlying error)]\<rparr>))"
proof (cases "rate_limited error")
  case None
  with assms show ?thesis by (simp add: step_Settle_type_error)
next
  case (Some b)
  with assms show ?thesis by (simp add: step_Settle_thrown [where b = b])
qed

lemma drain_retryCount [simp]: "retryCount (fst (drain w)) = retryCount w"
  by (simp add: drain_def task_unfold split: list.split)

lemma finish_trace:
  assumes c: "consistent r w" and d: "drains w = [FnAwait t]"
    and ob: "task_of ob = t" "invocations t [ob] = 0" "backoffs t [ob] = []"
  shows "prefix (log w @ [ob]) (log (put 0 (drain (w\<lparr>retryCount := rc, log := log w @ [ob]\<rparr>)))) \<and>
    invocations t (log (put 0 (drain (w\<lparr>retryCount := rc, log := log w @ [ob]\<rparr>)))) =
      invocations t (log w) \<and>
    backoffs t (log (put 0 (drain (w\<lparr>retryCount := rc, log := log w @ [ob]\<rparr>)))) =
      backoffs t (log w)"
proof -
  from c d have "queue w = [Suc t..<submitted w]" by (simp add: consistent_def)
  with drain_log_later [of "w\<lparr>retryCount := rc, log := log w @ [ob]\<rparr>" t]
  obtain new where n: "log (fst (drain (w\<lparr>retryCount := rc, log := log w @ [ob]\<rparr>))) =
      (log w @ [ob]) @ new" "\<forall>ob \<in> set new. Suc t \<le> task_of ob" by auto
  from later_task [OF n(2), of t] have "invocations t new = 0" "backoffs t new = []"
    by simp_all
  with n(1) ob show ?thesis by (simp add: prefix_def del: append_assoc)
qed

subsection \<open>Three retries in a row\<close>

lemma step_Elapse: "step w (Elapse d) = w\<lparr>now := now w + int d\<rparr>"
  by (simp add: step_def)

lemma storm_prefix:
  assumes d: "drains w = [FnAwait t]" and rc: "retryCount w = 0" and m: "maxRetries w = 3"
    and e: "rate_limited e1 = Some True" "rate_limited e2 = Some True"
      "rate_limited e3 = Some True"
  shows "run w [Settle 0 (Inl e1), Elapse (2 ^ 1 * 1000 + l1), Timer 0, Elapse d2,
                Settle 0 (Inl e2), Elapse (2 ^ 2 * 1000 + l2), Timer 0, Elapse d3,
                Settle 0 (Inl e3), Elapse (2 ^ 3 * 1000 + l3), Timer 0, Elapse d4] =
    w\<lparr>retryCount := 3,
      now := now w + 14000 + int l1 + int d2 + int l2 + int d3 + int l3 + int d4,
      log := log w @
        [Backoff t (2 ^ 1 * 1000), Invoked t (now w + 2000 + int l1),
         Backoff t (2 ^ 2 * 1000), Invoked t (now w + 6000 + int l1 + int d2 + int l2),
         Backoff t (2 ^ 3 * 1000),
         Invoked t (now w + 14000 + int l1 + int d2 + int l2 + int d3 + int l3)],
      drains := [FnAwait t]\<rparr>"
proof -
  let ?a = "step w (Settle 0 (Inl e1))"
  have a: "?a = w\<lparr>retryCount := 1, log := log w @ [Backoff t 2000],
       drains := [BackoffWait t (now w) 2000]\<rparr>"
    using d rc m by (simp add: step_Settle_retry [OF _ e(1)])
  let ?b = "step (step (step ?a (Elapse (2 ^ 1 * 1000 + l1))) (Timer 0)) (Elapse d2)"
  have b: "?b = w\<lparr>retryCount := 1, now := now w + 2000 + int l1 + int d2,
       log := log w @ [Backoff t 2000, Invoked t (now w + 2000 + int l1)],
       drains := [FnAwait t]\<rparr>"
    by (simp add: a step_Elapse step_Timer_backoff)
  let ?c = "step ?b (Settle 0 (Inl e2))"
  have c: "?c = w\<lparr>retryCount := 2, now := now w + 2000 + int l1 + int d2,
       log := log w @ [Backoff t 2000, Invoked t (now w + 2000 + int l1), Backoff t 4000],
       drains := [BackoffWait t (now w + 2000 + int l1 + int d2) 4000]\<rparr>"
    unfolding b using m by (simp add: step_Settle_retry [OF _ e(2)])
  let ?d = "step (step (step ?c (Elapse (2 ^ 2 * 1000 + l2))) (Timer 0)) (Elapse d3)"
  have d': "?d = w\<lparr>retryCount := 2, now := now w + 6000 + int l1 + int d2 + int l2 + int d3,
       log := log w @ [Backoff t 2000, Invoked t (now w + 2000 + int l1), Backoff t 4000,
         Invoked t (now w + 6000 + int l1 + int d2 + int l2)],
       drains := [FnAwait t]\<rparr>"
    unfolding c by (simp add: step_Elapse step_Timer_backoff)
  let ?e = "step ?d (Settle 0 (Inl e3))"
  have e': "?e = w\<lparr>retryCount := 3, now := now w + 6000 + int l1 + int d2 + int l2 + int d3,
       log := log w @ [Backoff t 2000, Invoked t (now w + 2000 + int l1), Backoff t 4000,
         Invoked t (now w + 6000 + int l1 + int d2 + int l2), Backoff t 8000],
       drains := [BackoffWait t (now w + 6000 + int l1 + int d2 + int l2 + int d3) 8000]\<rparr>"
    unfolding d' using m by (simp add: step_Settle_retry [OF _ e(3)])
  let ?f = "step (step (step ?e (Elapse (2 ^ 3 * 1000 + l3))) (Timer 0)) (Elapse d4)"
  have f: "?f = w\<lparr>retryCount := 3,
       now := now w + 14000 + int l1 + int d2 + int l2 + int d3 + int l3 + int d4,
       log := log w @ [Backoff t 2000, Invoked t (now w + 2000 + int l1), Backoff t 4000,
         Invoked t (now w + 6000 + int l1 + int d2 + int l2), Backoff t 8000,
         Invoked t (now w + 14000 + int l1 + int d2 + int l2 + int d3 + int l3)],
       drains := [FnAwait t]\<rparr>"
    unfolding e' by (simp add: step_Elapse step_Timer_backoff)
  show ?thesis unfolding run_def foldl.simps f by simp
qed

lemma storm_punctual:
  assumes d: "drains w = [FnAwait t]" and rc: "retryCount w = 0" and m: "maxRetries w = 3"
    and e: "rate_limited e1 = Some True" "rate_limited e2 = Some True"
      "rate_limited e3 = Some True"
  shows "punctual w [Settle 0 (Inl e1), Elapse (2 ^ 1 * 1000 + l1), Timer 0, Elapse d2,
                Settle 0 (Inl e2), Elapse (2 ^ 2 * 1000 + l2), Timer 0, Elapse d3,
                Settle 0 (Inl e3), Elapse (2 ^ 3 * 1000 + l3), Timer 0, Elapse d4,
                Settle 0 (Inl e4)]"
proof -
  let ?a = "step w (Settle 0 (Inl e1))"
  have a: "?a = w\<lparr>retryCount := 1, log := log w @ [Backoff t 2000],
       drains := [BackoffWait t (now w) 2000]\<rparr>"
    using d rc m by (simp add: step_Settle_retry [OF _ e(1)])
  let ?a' = "step ?a (Elapse (2 ^ 1 * 1000 + l1))"
  have a': "?a' = w\<lparr>retryCount := 1, now := now w + 2000 + int l1,
       log := log w @ [Backoff t 2000], drains := [BackoffWait t (now w) 2000]\<rparr>"
    by (simp add: a step_Elapse)
  let ?b = "step (step ?a' (Timer 0)) (Elapse d2)"
  have b: "?b = w\<lparr>retryCount := 1, now := now w + 2000 + int l1 + int d2,
       log := log w @ [Backoff t 2000, Invoked t (now w + 2000 + int l1)],
       drains := [FnAwait t]\<rparr>"
    unfolding a' by (simp add: step_Elapse step_Timer_backoff)
  let ?c = "step ?b (Settle 0 (Inl e2))"
  have c: "?c = w\<lparr>retryCount := 2, now := now w + 2000 + int l1 + int d2,
       log := log w @ [Backoff t 2000, Invoked t (now w + 2000 + int l1), Backoff t 4000],
       drains := [BackoffWait t (now w + 2000 + int l1 + int d2) 4000]\<rparr>"
    unfolding b using m by (simp add: step_Settle_retry [OF _ e(2)])
  let ?c' = "step ?c (Elapse (2 ^ 2 * 1000 + l2))"
  have c': "?c' = w\<lparr>retryCount := 2, now := now w + 6000 + int l1 + int d2 + int l2,
       log := log w @ [Backoff t 2000, Invoked t (now w + 2000 + int l1), Backoff t 4000],
       drains := [BackoffWait t (now w + 2000 + int l1 + int d2) 4000]\<rparr>"
    unfolding c by (simp add: step_Elapse)
  let ?d = "step (step ?c' (Timer 0)) (Elapse d3)"
  have d': "?d = w\<lparr>retryCount := 2, now := now w + 6000 + int l1 + int d2 + int l2 + int d3,
       log := log w @ [Backoff t 2000, Invoked t (now w + 2000 + int l1), Backoff t 4000,
         Invoked t (now w + 6000 + int l1 + int d2 + int l2)],
       drains := [FnAwait t]\<rparr>"
    unfolding c' by (simp add: step_Elapse step_Timer_backoff)
  let ?e = "step ?d (Settle 0 (Inl e3))"
  have e': "?e = w\<lparr>retryCount := 3, now := now w + 6000 + int l1 + int d2 + int l2 + int d3,
       log := log w @ [Backoff t 2000, Invoked t (now w + 2000 + int l1), Backoff t 4000,
         Invoked t (now w + 6000 + int l1 + int d2 + int l2), Backoff t 8000],
       drains := [BackoffWait t (now w + 6000 + int l1 + int d2 + int l2 + int d3) 8000]\<rparr>"
    unfolding d' using m by (simp add: step_Settle_retry [OF _ e(3)])
  let ?e' = "step ?e (Elapse (2 ^ 3 * 1000 + l3))"
  have e'': "?e' = w\<lparr>retryCount := 3,
       now := now w + 14000 + int l1 + int d2 + int l2 + int d3 + int l3,
       log := log w @ [Backoff t 2000, Invoked t (now w + 2000 + int l1), Backoff t 4000,
         Invoked t (now w + 6000 + int l1 + int d2 + int l2), Backoff t 8000],
       drains := [BackoffWait t (now w + 6000 + int l1 + int d2 + int l2 + int d3) 8000]\<rparr>"
    unfolding e' by (simp add: step_Elapse)
  have t1: "on_time ?a' (Timer 0)" unfolding a' by (simp add: on_time_def node_delay_def)
  have t2: "on_time ?c' (Timer 0)" unfolding c' by (simp add: on_time_def node_delay_def)
  have t3: "on_time ?e' (Timer 0)" unfolding e'' by (simp add: on_time_def node_delay_def)
  have o: "on_time v (Settle k out)" "on_time v (Elapse n)" for v k out n
    by (simp_all add: on_time_def)
  show ?thesis unfolding punctual.simps using t1 t2 t3 by (simp add: o)
qed


subsection \<open>Spacing on punctual schedules\<close>

lemma starts_drain:
  "starts (log (fst (drain v))) =
     starts (log v) @ (case queue v of [] \<Rightarrow> []
       | j # q \<Rightarrow> if now v - lastCallTime v < rateLimit v then [] else [(j, now v)])"
  by (simp add: drain_log split: list.split)

lemma step_starts:
  assumes c: "consistent r w"
  shows "starts (log (step w ev)) = starts (log w) \<or>
         starts (log (step w ev)) = starts (log w) @ [(length (starts (log w)), now w)] \<and>
         (r \<le> now w - lastCallTime w \<or> (\<exists>j s d. ev = Timer 0 \<and> drains w = [IntervalWait j s d]))"
proof -
  from c have b: "busy w (drains w)" and tr: "traced r w" by (simp_all add: consistent_def)
  from tr have rl: "rateLimit w = r" by (simp add: traced_def)
  have same: ?thesis if "step w ev = w" using that by simp
  from b show ?thesis
  proof (cases rule: busy_cases)
    case 1
    with b have idle: "\<not> processing w" "queue w = []"
      "length (starts (log w)) = submitted w" by simp_all
    show ?thesis
    proof (cases ev)
      case Submit
      with idle rl show ?thesis by (simp add: idle_Submit starts_drain)
    next
      case (Elapse d)
      then show ?thesis by (simp add: step_def)
    next
      case (Timer k)
      with 1 show ?thesis by (intro same) (simp add: step_Timer_beyond)
    next
      case (Settle k out)
      with 1 show ?thesis by (intro same) (simp add: step_Settle_beyond)
    qed
  next
    case (2 t s d)
    with b have bb: "processing w" "length (starts (log w)) = t" by simp_all
    show ?thesis
    proof (cases ev)
      case Submit
      with bb show ?thesis by (simp add: processing_Submit)
    next
      case (Elapse d)
      then show ?thesis by (simp add: step_def)
    next
      case (Timer k)
      show ?thesis
      proof (cases "k = 0")
        case True
        with 2 Timer bb show ?thesis by (simp add: step_Timer_interval)
      next
        case False
        with 2 Timer show ?thesis by (intro same) (simp add: step_Timer_beyond)
      qed
    next
      case (Settle k out)
      with 2 show ?thesis by (intro same) (simp add: step_Settle_interval)
    qed
  next
    case (4 t s d)
    with b have bb: "processing w" by simp
    show ?thesis
    proof (cases ev)
      case Submit
      with bb show ?thesis by (simp add: processing_Submit)
    next
      case (Elapse d)
      then show ?thesis by (simp add: step_def)
    next
      case (Timer k)
      show ?thesis
      proof (cases "k = 0")
        case True
        with 4 Timer show ?thesis by (simp add: step_Timer_backoff)
      next
        case False
        with 4 Timer show ?thesis by (intro same) (simp add: step_Timer_beyond)
      qed
    next
      case (Settle k out)
      with 4 show ?thesis by (intro same) (simp add: step_Settle_backoff)
    qed
  next
    case (3 t)
    with b have bb: "processing w" "length (starts (log w)) = Suc t"
      "queue w = [Suc t..<submitted w]" by simp_all
    have fin: "starts (log (put 0 (drain (w\<lparr>retryCount := rc, log := log w @ [ob]\<rparr>)))) =
        starts (log w) \<or>
      starts (log (put 0 (drain (w\<lparr>retryCount := rc, log := log w @ [ob]\<rparr>)))) =
        starts (log w) @ [(Suc t, now w)] \<and> r \<le> now w - lastCallTime w"
      if "starts [ob] = []" for rc ob
    proof (cases "queue w")
      case Nil
      with that show ?thesis by (simp add: starts_drain)
    next
      case (Cons j q)
      with bb have "[Suc t..<submitted w] = j # q" by simp
      then have "j = Suc t" by (auto simp: upt_eq_Cons_conv)
      with Cons that rl show ?thesis by (simp add: starts_drain)
    qed
    show ?thesis
    proof (cases ev)
      case Submit
      with bb show ?thesis by (simp add: processing_Submit)
    next
      case (Elapse d)
      then show ?thesis by (simp add: step_def)
    next
      case (Timer k)
      with 3 show ?thesis by (intro same) (simp add: step_Timer_await)
    next
      case (Settle k out)
      show ?thesis
      proof (cases "k = 0")
        case False
        with 3 Settle show ?thesis by (intro same) (simp add: step_Settle_beyond)
      next
        case True
        show ?thesis
        proof (cases out)
          case (Inr v)
          with 3 True Settle bb fin [of "Resolved t v" 0] show ?thesis
            by (simp add: step_Settle_resolved)
        next
          case (Inl e)
          show ?thesis
          proof (cases "rate_limited e")
            case None
            with 3 True Settle Inl bb fin [of "Rejected t DetectionTypeError" "retryCount w"]
            show ?thesis by (simp add: step_Settle_type_error)
          next
            case (Some m)
            show ?thesis
            proof (cases "m \<and> retryCount w < maxRetries w")
              case False
              with 3 True Settle Inl Some bb fin [of "Rejected t (Underlying e)" "retryCount w"]
              show ?thesis by (simp add: step_Settle_thrown [where b = m])
            next
              case yes: True
              with Some have s: "rate_limited e = Some True" by simp
              with 3 True Settle Inl yes show ?thesis
                by (simp add: step_Settle_retry [OF _ s])
            qed
          qed
        qed
      qed
    qed
  qed
qed

lemma spaced_step:
  assumes c: "consistent r w" and sp: "spaced r w" and r: "r \<le> 2147483647"
    and ot: "on_time w ev"
  shows "spaced r (step w ev)"
proof -
  from c have b: "busy w (drains w)" and tr: "traced r w" by (simp_all add: consistent_def)
  from step_starts [OF c, of ev] show ?thesis
  proof
    assume "starts (log (step w ev)) = starts (log w)"
    with sp show ?thesis by (simp add: spaced_def)
  next
    assume a: "starts (log (step w ev)) = starts (log w) @ [(length (starts (log w)), now w)] \<and>
         (r \<le> now w - lastCallTime w \<or> (\<exists>j s d. ev = Timer 0 \<and> drains w = [IntervalWait j s d]))"
    have gap: "r \<le> now w - lastCallTime w" if ne: "starts (log w) \<noteq> []"
    proof -
      from a show ?thesis
      proof (elim conjE disjE exE)
        fix j s d
        assume ev: "ev = Timer 0" and d: "drains w = [IntervalWait j s d]"
        from b d ne tr have f: "s + d = lastCallTime w + r" "1 \<le> d" "d \<le> r"
          by (simp_all add: traced_def)
        with r have "node_delay d = d" by (simp add: node_delay_def)
        moreover from ot ev d have "s + node_delay d \<le> now w" by (simp add: on_time_def)
        ultimately show ?thesis using f by simp
      qed
    qed
    show ?thesis
    proof (cases "starts (log w) = []")
      case True
      with a show ?thesis by (simp add: spaced_def)
    next
      case False
      then have "last (map snd (starts (log w))) = snd (last (starts (log w)))"
        by (simp add: last_map)
      moreover from tr False have "lastCallTime w = snd (last (starts (log w)))"
        by (simp add: traced_def)
      ultimately show ?thesis using a sp gap False
        by (simp add: spaced_def successively_append_iff)
    qed
  qed
qed

lemma spaced_run:
  "consistent r w \<Longrightarrow> spaced r w \<Longrightarrow> r \<le> 2147483647 \<Longrightarrow> punctual w evs \<Longrightarrow>
   spaced r (run w evs)"
proof (induction evs arbitrary: w)
  case Nil
  then show ?case by (simp add: run_def)
next
  case (Cons ev evs)
  from Cons.prems have "spaced r (step w ev)" by (intro spaced_step) simp_all
  with Cons.IH [of "step w ev"] Cons.prems show ?case
    by (simp add: run_def consistent_step)
qed

lemma spaced_reach:
  "r \<le> 2147483647 \<Longrightarrow> punctual (init r t0) evs \<Longrightarrow> spaced r (run (init r t0) evs)"
proof -
  assume "r \<le> 2147483647" and "punctual (init r t0) evs"
  moreover have "spaced r (init r t0)"
    by (simp add: spaced_def init_def new_RateLimiter_def RateLimiter.extend_def)
  ultimately show ?thesis using consistent_init [of r t0] by (intro spaced_run)
qed


subsection \<open>How often a callable is invoked\<close>

lemma started_invoked:
  assumes c: "consistent r w" and t: "t < length (starts (log w))"
  shows "1 \<le> invocations t (log w) \<and>
    invocations t (log w) \<le> Suc (length (backoffs t (log w))) \<and>
    length (backoffs t (log w)) \<le> maxRetries w \<and>
    (t < length (settled (log w)) \<longrightarrow>
       invocations t (log w) = Suc (length (backoffs t (log w))))"
proof -
  from c have tr: "traced r w" and b: "busy w (drains w)" by (simp_all add: consistent_def)
  from tr have co: "counted (log w)" and ti: "timed (log w)" and m: "maxRetries w = 3"
    by (simp_all add: traced_def)
  from ti t have "invoked_at t (log w) \<noteq> []" by (simp add: timed_def)
  then have "length (invoked_at t (log w)) \<noteq> 0" by simp
  then have one: "1 \<le> invocations t (log w)" by (simp add: length_invoked_at)
  from co t m have cap: "length (backoffs t (log w)) \<le> maxRetries w" by (simp add: counted_def)
  have eq: "invocations t (log w) = Suc (length (backoffs t (log w)))"
    if "t < length (settled (log w))"
    using co that by (simp add: counted_def)
  have up: "invocations t (log w) \<le> Suc (length (backoffs t (log w)))"
  proof (cases "t < length (settled (log w))")
    case True
    with eq show ?thesis by simp
  next
    case False
    from b show ?thesis
      by (cases rule: busy_cases) (use b t False in \<open>auto simp: less_Suc_eq\<close>)
  qed
  from one up cap eq show ?thesis by blast
qed

lemma drive_invoked:
  assumes c: "consistent r w" and n: "9 * Suc (length (queue w)) \<le> length os"
    and t: "t < submitted w"
  shows "invocations t (log (foldl advance w os)) =
    Suc (length (backoffs t (log (foldl advance w os))))"
proof -
  from drive_complete [OF c n] have "settled (log (foldl advance w os)) = [0..<submitted w]"
    by simp
  then have "length (settled (log (foldl advance w os))) = submitted w" by simp
  moreover from c have "consistent r (foldl advance w os)" by (rule consistent_drive)
  then have "counted (log (foldl advance w os))" by (simp add: consistent_def traced_def)
  ultimately show ?thesis using t by (simp add: counted_def)
qed

subsection \<open>A failure on which the detection expression is false\<close>

lemma unmarked_error_rejects:
  assumes "w = run (init r t0) evs" and "drains w = [FnAwait t]"
    and "invocations t (log w) = 1"
    and "rate_limited error = Some False"
    and "w' = step w (Settle 0 (Inl error))"
  shows "prefix (log w @ [Rejected t (Underlying error)]) (log w') \<and>
    t \<in> set (settled (log w')) \<and>
    retryCount w' = retryCount w \<and>
    (\<forall>later. invocations t (log (run w' later)) = 1 \<and> backoffs t (log (run w' later)) = [])"
proof -
  have c: "consistent r w" unfolding assms(1) by (rule consistent_reach)
  have c': "consistent r w'" unfolding assms(5) using c by (rule consistent_step)
  from c assms(2,3) have bo: "backoffs t (log w) = []" by (simp add: consistent_def)
  have w': "w' = put 0 (drain (w\<lparr>retryCount := retryCount w,
      log := log w @ [Rejected t (Underlying error)]\<rparr>))"
    unfolding assms(5) using assms(2,4) by (simp add: step_Settle_thrown [where b = False])
  from finish_trace [OF c assms(2), of "Rejected t (Underlying error)" "retryCount w"]
  have f: "prefix (log w @ [Rejected t (Underlying error)]) (log w')"
    "invocations t (log w') = invocations t (log w)"
    "backoffs t (log w') = backoffs t (log w)"
    unfolding w' by simp_all
  have s: "settled (log w') = settled (log w) @ [t]"
    by (simp add: w' settled_drain)
  from c assms(2) have "length (settled (log w)) = t" by (simp add: consistent_def)
  with s have lt: "t < length (settled (log w'))" by simp
  have "retryCount w' = retryCount w" by (simp add: w' put0_fields)
  moreover have "invocations t (log (run w' later)) = 1 \<and> backoffs t (log (run w' later)) = []"
    for later
    using frozen_run [OF c' lt, of later] f assms(3) bo by simp
  ultimately show ?thesis using f(1) s by simp
qed


section \<open>The claims\<close>

text \<open>
  In what follows \<open>run (init r t0) evs\<close> is any world the instance can be in: constructed with
  minimum interval \<open>r\<close> when the clock read \<open>t0\<close>, then taken through the events \<open>evs\<close>, which
  interleave submissions, the passing of time, timers and settlements in any order.  Tasks
  are numbered from 0 in submission order, so the \<open>M\<close>th job of a claim is task \<open>M - 1\<close>.
\<close>

subsection \<open>C1: spacing of job starts\<close>

text \<open>
  C1, as the code has it.  The task sets one timer for the rest of the interval (lines 61 and
  62) and, when it fires, writes the clock to \<open>lastCallTime\<close> without comparing it with
  anything (line 65).  So the spacing is that of the timers.  When the interval is at most
  2147483647 milliseconds and the schedule is punctual, then for every \<open>M\<close> from 2 on the
  \<open>M\<close>th job to reach line 65 is the \<open>M\<close>th job submitted, it reaches it no sooner than
  \<open>rateLimit\<close> milliseconds after the previous one did, the previous callable was first
  invoked at its start, and every invocation of the \<open>M\<close>th callable comes at least
  \<open>rateLimit\<close> after that; a task that has not started has not been invoked.  The interval
  runs from the previous start and not from its completion: \<open>lastCallTime\<close> is the clock value
  of the latest start, an interval timer is set to end at \<open>lastCallTime + rateLimit\<close>, and when
  a job has run for longer than the interval the next one is started in the very step that
  completes it.
\<close>

theorem start_spacing:
  assumes "w = run (init r t0) evs" and "r \<le> 2147483647" and "punctual (init r t0) evs"
  shows "rateLimit w = r \<and>
    (\<forall>M. 2 \<le> M \<and> M \<le> length (starts (log w)) \<longrightarrow>
       fst (starts (log w) ! (M - 1)) = M - 1 \<and>
       r \<le> snd (starts (log w) ! (M - 1)) - snd (starts (log w) ! (M - 2)) \<and>
       hd (invoked_at (M - 2) (log w)) = snd (starts (log w) ! (M - 2)) \<and>
       invoked_at (M - 1) (log w) \<noteq> [] \<and>
       (\<forall>c \<in> set (invoked_at (M - 1) (log w)). r \<le> c - hd (invoked_at (M - 2) (log w)))) \<and>
    (\<forall>t. length (starts (log w)) \<le> t \<longrightarrow> invoked_at t (log w) = []) \<and>
    (starts (log w) \<noteq> [] \<longrightarrow> lastCallTime w = snd (last (starts (log w)))) \<and>
    (\<forall>j s d. drains w = [IntervalWait j s d] \<longrightarrow> s + d = lastCallTime w + r) \<and>
    (\<forall>t j q v. drains w = [FnAwait t] \<and> queue w = j # q \<and> r \<le> now w - lastCallTime w \<longrightarrow>
       starts (log (step w (Settle 0 (Inr v)))) = starts (log w) @ [(j, now w)])"
proof -
  have c: "consistent r w" unfolding assms(1) by (rule consistent_reach)
  then have tr: "traced r w" and b: "busy w (drains w)" by (simp_all add: consistent_def)
  from tr have ti: "timed (log w)" and rl: "rateLimit w = r" by (simp_all add: traced_def)
  have sp: "successively (\<lambda>a b. r \<le> b - a) (map snd (starts (log w)))"
    using spaced_reach [OF assms(2,3)] by (simp add: assms(1) spaced_def)
  have m: "fst (starts (log w) ! (M - 1)) = M - 1 \<and>
       r \<le> snd (starts (log w) ! (M - 1)) - snd (starts (log w) ! (M - 2)) \<and>
       hd (invoked_at (M - 2) (log w)) = snd (starts (log w) ! (M - 2)) \<and>
       invoked_at (M - 1) (log w) \<noteq> [] \<and>
       (\<forall>c \<in> set (invoked_at (M - 1) (log w)). r \<le> c - hd (invoked_at (M - 2) (log w)))"
    if M: "2 \<le> M" "M \<le> length (starts (log w))" for M
  proof -
    from M obtain i where i: "M = Suc (Suc i)" by (cases M rule: nat.exhaust; cases "M - 1") auto
    with M have il: "i < length (starts (log w))" "Suc i < length (starts (log w))" by simp_all
    from successively_nth [OF sp, of i] il
    have g: "r \<le> snd (starts (log w) ! Suc i) - snd (starts (log w) ! i)" by simp
    from tr have "map fst (starts (log w)) ! Suc i = [0..<length (starts (log w))] ! Suc i"
      by (simp add: traced_def)
    with il have f: "fst (starts (log w) ! Suc i) = Suc i" by simp
    from ti il have h: "hd (invoked_at i (log w)) = snd (starts (log w) ! i)"
      and n: "invoked_at (Suc i) (log w) \<noteq> []"
      and a: "\<forall>c \<in> set (invoked_at (Suc i) (log w)). snd (starts (log w) ! Suc i) \<le> c"
      by (simp_all add: timed_def)
    from a g h have "\<forall>c \<in> set (invoked_at (Suc i) (log w)). r \<le> c - hd (invoked_at i (log w))"
      by auto
    with g f h n show ?thesis using i by simp
  qed
  have fr: "invoked_at t (log w) = []" if "length (starts (log w)) \<le> t" for t
    using traced_fresh [OF tr that] by simp
  have lc: "starts (log w) \<noteq> [] \<longrightarrow> lastCallTime w = snd (last (starts (log w)))"
    using tr by (simp add: traced_def)
  have nx: "starts (log (step w (Settle 0 (Inr v)))) = starts (log w) @ [(j, now w)]"
    if "drains w = [FnAwait t]" "queue w = j # q" "r \<le> now w - lastCallTime w" for t j q v
    using that rl by (simp add: step_Settle_resolved drain_log)
  have du: "s + d = lastCallTime w + r" if "drains w = [IntervalWait j s d]" for j s d
    using b that rl by simp
  from rl m fr lc du nx show ?thesis by blast
qed

theorem start_spacing_witness:
  "(2000 \<le> (2147483647 :: int) \<and> punctual (init 2000 1000000) two_jobs) \<and>
   (2 \<le> (2::nat) \<and> 2 \<le> length (starts (log (run (init 2000 1000000) two_jobs)))) \<and>
   starts (log (run (init 2000 1000000) two_jobs)) = [(0, 1000000), (1, 1002000)] \<and>
   (2000::int) \<le> snd (starts (log (run (init 2000 1000000) two_jobs)) ! (2 - 1)) -
     snd (starts (log (run (init 2000 1000000) two_jobs)) ! (2 - 2)) \<and>
   invoked_at (2 - 1) (log (run (init 2000 1000000) two_jobs)) = [1002000] \<and>
   (1002000 \<in> set (invoked_at (2 - 1) (log (run (init 2000 1000000) two_jobs))) \<and>
    (2000::int) \<le> 1002000 - hd (invoked_at (2 - 2) (log (run (init 2000 1000000) two_jobs)))) \<and>
   punctual (init 2000 1000000) two_jobs_waiting \<and>
   drains (run (init 2000 1000000) two_jobs_waiting) = [IntervalWait 1 1000300 1700] \<and>
   1000300 + 1700 = lastCallTime (run (init 2000 1000000) two_jobs_waiting) + 2000 \<and>
   punctual (init 2000 1000000) long_job \<and>
   (drains (run (init 2000 1000000) long_job) = [FnAwait 0] \<and>
    queue (run (init 2000 1000000) long_job) = [1] \<and>
    2000 \<le> now (run (init 2000 1000000) long_job) -
      lastCallTime (run (init 2000 1000000) long_job)) \<and>
   starts (log (step (run (init 2000 1000000) long_job) (Settle 0 (Inr JNull)))) =
     starts (log (run (init 2000 1000000) long_job)) @
       [(1, now (run (init 2000 1000000) long_job))]"
proof -
  have r: "2000 \<le> (2147483647 :: int)" by simp
  have p: "punctual (init 2000 1000000) two_jobs"
    "punctual (init 2000 1000000) two_jobs_waiting"
    "punctual (init 2000 1000000) long_job"
    by code_simp+
  have s: "starts (log (run (init 2000 1000000) two_jobs)) = [(0, 1000000), (1, 1002000)]"
    "invoked_at (2 - 1) (log (run (init 2000 1000000) two_jobs)) = [1002000]"
    by code_simp+
  have d: "drains (run (init 2000 1000000) two_jobs_waiting) = [IntervalWait 1 1000300 1700]"
    by code_simp
  have l: "drains (run (init 2000 1000000) long_job) = [FnAwait 0]"
    "queue (run (init 2000 1000000) long_job) = [1]"
    "now (run (init 2000 1000000) long_job) = 1005000"
    "lastCallTime (run (init 2000 1000000) long_job) = 1000000"
    by code_simp+
  from s start_spacing [OF refl r p(1), THEN conjunct2, THEN conjunct1, rule_format, of 2]
  have g: "(2000::int) \<le> snd (starts (log (run (init 2000 1000000) two_jobs)) ! (2 - 1)) -
     snd (starts (log (run (init 2000 1000000) two_jobs)) ! (2 - 2))"
    and a: "\<forall>c \<in> set (invoked_at (2 - 1) (log (run (init 2000 1000000) two_jobs))).
      2000 \<le> c - hd (invoked_at (2 - 2) (log (run (init 2000 1000000) two_jobs)))"
    by simp_all
  from a s(2)
  have i: "(2000::int) \<le> 1002000 - hd (invoked_at (2 - 2) (log (run (init 2000 1000000) two_jobs)))"
    by simp
  from d start_spacing [OF refl r p(2), THEN conjunct2, THEN conjunct2, THEN conjunct2,
      THEN conjunct2, THEN conjunct1, rule_format, of 1 1000300 1700]
  have w: "1000300 + 1700 = lastCallTime (run (init 2000 1000000) two_jobs_waiting) + 2000"
    by simp
  from l start_spacing [OF refl r p(3), THEN conjunct2, THEN conjunct2, THEN conjunct2,
      THEN conjunct2, THEN conjunct2, rule_format, of 0 1 "[]" JNull]
  have n: "starts (log (step (run (init 2000 1000000) long_job) (Settle 0 (Inr JNull)))) =
     starts (log (run (init 2000 1000000) long_job)) @
       [(1, now (run (init 2000 1000000) long_job))]"
    by simp
  from r p s d l g i w n show ?thesis by simp
qed

text \<open>
  C1 as stated, for every interval and whatever the timers do, fails twice over.  With an
  interval of 3000000000 the second task asks for a delay of 3000000000, which Node takes as
  1, and on a punctual schedule it starts one millisecond after the first.  With an interval
  of 2000 and a timer that fires after 1999 milliseconds the second task starts 1999
  milliseconds after the first.
\<close>

theorem starts_too_close:
  "drains (run (init 3000000000 1700000000000) [Submit, Submit, Settle 0 (Inr JNull)]) =
     [IntervalWait 1 1700000000000 3000000000] \<and>
   node_delay 3000000000 = 1 \<and>
   punctual (init 3000000000 1700000000000) clamped_wait \<and>
   starts (log (run (init 3000000000 1700000000000) clamped_wait)) =
     [(0, 1700000000000), (1, 1700000000001)] \<and>
   \<not> (3000000000 \<le>
      snd (starts (log (run (init 3000000000 1700000000000) clamped_wait)) ! (2 - 1)) -
      snd (starts (log (run (init 3000000000 1700000000000) clamped_wait)) ! (2 - 2))) \<and>
   \<not> punctual (init 2000 1700000000000) early_timer \<and>
   starts (log (run (init 2000 1700000000000) early_timer)) =
     [(0, 1700000000000), (1, 1700000001999)] \<and>
   \<not> (2000 \<le>
      snd (starts (log (run (init 2000 1700000000000) early_timer)) ! (2 - 1)) -
      snd (starts (log (run (init 2000 1700000000000) early_timer)) ! (2 - 2)))"
  by code_simp

subsection \<open>C2: the retry counter across jobs\<close>

text \<open>
  C2 asks that every job begin with the full retry budget.  The counter is a field of the
  instance and line 67 resets it on the success path only; the failure path of lines 69 to 71
  leaves it as it is.  With interval 100: the first job fails four times with a 429 error and
  is rejected with the counter at 3; the second job then fails once with a 429 error and is
  rejected at once, without any retry.
\<close>

theorem retry_budget_leaks:
  "retryCount (run (init 100 1000000) exhausted_then_next) = 3 \<and>
   log (run (init 100 1000000) exhausted_then_next) =
     [Started 0 1000000, Invoked 0 1000000,
      Backoff 0 2000, Invoked 0 1002000, Backoff 0 4000, Invoked 0 1006000,
      Backoff 0 8000, Invoked 0 1014000, Rejected 0 (Underlying (Error ''429'')),
      Started 1 1014000, Invoked 1 1014000, Rejected 1 (Underlying (Error ''429''))] \<and>
   invocations 1 (log (run (init 100 1000000) exhausted_then_next)) = 1 \<and>
   backoffs 1 (log (run (init 100 1000000) exhausted_then_next)) = []"
  by code_simp

subsection \<open>C3: a job that is rate limited every time\<close>

text \<open>
  C3, with the delay as the code computes it.  A job whose callable has been invoked once,
  with the retry counter at 0, and whose callable fails with a rate-limit-marked error every
  time: the \<open>K\<close>th retry (\<open>K\<close> = 1, 2, 3) follows a backoff timer set for \<open>2 ^ K * 1000\<close>
  milliseconds, whatever the lateness \<open>l1\<close>, \<open>l2\<close>, \<open>l3\<close> of the timers and the time \<open>d2\<close>,
  \<open>d3\<close>, \<open>d4\<close> the callable takes to fail; the fourth failure rejects the caller's promise
  with the error of that last attempt; and the callable is invoked \<open>maxRetries + 1\<close> times in
  all, also in every later world.  The schedule is punctual: with the delays the code sets,
  no timer in it fires early.
\<close>

theorem rate_limit_storm:
  assumes "w = run (init r t0) evs" and "drains w = [FnAwait t]"
    and "retryCount w = 0" and "invocations t (log w) = 1"
    and "rate_limited e1 = Some True" and "rate_limited e2 = Some True"
    and "rate_limited e3 = Some True" and "rate_limited e4 = Some True"
    and "w' = run w [Settle 0 (Inl e1), Elapse (2 ^ 1 * 1000 + l1), Timer 0, Elapse d2,
                     Settle 0 (Inl e2), Elapse (2 ^ 2 * 1000 + l2), Timer 0, Elapse d3,
                     Settle 0 (Inl e3), Elapse (2 ^ 3 * 1000 + l3), Timer 0, Elapse d4,
                     Settle 0 (Inl e4)]"
  shows "prefix (log w @
        [Backoff t (2 ^ 1 * 1000), Invoked t (now w + 2000 + int l1),
         Backoff t (2 ^ 2 * 1000), Invoked t (now w + 6000 + int l1 + int d2 + int l2),
         Backoff t (2 ^ 3 * 1000),
         Invoked t (now w + 14000 + int l1 + int d2 + int l2 + int d3 + int l3),
         Rejected t (Underlying e4)]) (log w') \<and>
    t \<in> set (settled (log w')) \<and>
    (\<forall>later. invocations t (log (run w' later)) = maxRetries w + 1 \<and>
       backoffs t (log (run w' later)) = [2 ^ 1 * 1000, 2 ^ 2 * 1000, 2 ^ 3 * 1000]) \<and>
    punctual w [Settle 0 (Inl e1), Elapse (2 ^ 1 * 1000 + l1), Timer 0, Elapse d2,
                Settle 0 (Inl e2), Elapse (2 ^ 2 * 1000 + l2), Timer 0, Elapse d3,
                Settle 0 (Inl e3), Elapse (2 ^ 3 * 1000 + l3), Timer 0, Elapse d4,
                Settle 0 (Inl e4)]"
proof -
  have c: "consistent r w" unfolding assms(1) by (rule consistent_reach)
  then have m: "maxRetries w = 3" by (simp add: consistent_def traced_def)
  from c assms(2,4) have bo: "backoffs t (log w) = []" by (simp add: consistent_def)
  let ?pre = "[Settle 0 (Inl e1), Elapse (2 ^ 1 * 1000 + l1), Timer 0, Elapse d2,
                Settle 0 (Inl e2), Elapse (2 ^ 2 * 1000 + l2), Timer 0, Elapse d3,
                Settle 0 (Inl e3), Elapse (2 ^ 3 * 1000 + l3), Timer 0, Elapse d4]"
  let ?l = "log w @
        [Backoff t (2 ^ 1 * 1000), Invoked t (now w + 2000 + int l1),
         Backoff t (2 ^ 2 * 1000), Invoked t (now w + 6000 + int l1 + int d2 + int l2),
         Backoff t (2 ^ 3 * 1000),
         Invoked t (now w + 14000 + int l1 + int d2 + int l2 + int d3 + int l3)]"
  define s where "s = run w ?pre"
  note p = storm_prefix [OF assms(2,3) m assms(5,6,7), of l1 d2 l2 d3 l3 d4]
  have cp: "consistent r s" unfolding s_def using c by (rule consistent_run)
  have dp: "drains s = [FnAwait t]" and lp: "log s = ?l"
    and rp: "retryCount s = 3" and mp: "maxRetries s = 3"
    unfolding s_def p using m by simp_all
  from rp mp have nr: "\<not> (True \<and> retryCount s < maxRetries s)" by simp
  have "w' = step s (Settle 0 (Inl e4))"
    unfolding assms(9) s_def run_def by simp
  also have "\<dots> = put 0 (drain (s\<lparr>log := log s @ [Rejected t (Underlying e4)]\<rparr>))"
    using dp assms(8) nr by (rule step_Settle_thrown)
  finally have w': "w' = put 0 (drain (s\<lparr>log := log s @ [Rejected t (Underlying e4)]\<rparr>))" .
  from finish_trace [OF cp dp, of "Rejected t (Underlying e4)" "retryCount s"]
  have "prefix (log s @ [Rejected t (Underlying e4)]) (log w') \<and>
    invocations t (log w') = invocations t (log s) \<and>
    backoffs t (log w') = backoffs t (log s)"
    unfolding w' by simp
  then have f: "prefix (?l @ [Rejected t (Underlying e4)]) (log w')"
    "invocations t (log w') = invocations t ?l"
    "backoffs t (log w') = backoffs t ?l"
    unfolding lp by simp_all
  have c': "consistent r w'"
    unfolding assms(9) using c by (rule consistent_run)
  have st: "settled (log w') = settled (log w) @ [t]"
    by (simp add: w' settled_drain lp)
  from c assms(2) have "length (settled (log w)) = t" by (simp add: consistent_def)
  with st have lt: "t < length (settled (log w'))" by simp
  have "invocations t (log (run w' later)) = maxRetries w + 1 \<and>
       backoffs t (log (run w' later)) = [2 ^ 1 * 1000, 2 ^ 2 * 1000, 2 ^ 3 * 1000]" for later
    using frozen_run [OF c' lt, of later] f(2,3) assms(4) bo m by simp
  then show ?thesis
    using f(1) st storm_punctual [OF assms(2,3) m assms(5,6,7), of l1 d2 l2 d3 l3 d4 e4]
    by simp
qed

theorem rate_limit_storm_witness:
  "drains (run (init 100 1000000) one_job) = [FnAwait 0] \<and>
   retryCount (run (init 100 1000000) one_job) = 0 \<and>
   invocations 0 (log (run (init 100 1000000) one_job)) = 1 \<and>
   rate_limited (Error ''429 Too Many Requests'') = Some True \<and>
   rate_limited (Error ''Request failed with status code 429'') = Some True \<and>
   log (run (run (init 100 1000000) one_job) storm) =
     [Started 0 1000000, Invoked 0 1000000,
      Backoff 0 2000, Invoked 0 1002043, Backoff 0 4000, Invoked 0 1006068,
      Backoff 0 8000, Invoked 0 1014099,
      Rejected 0 (Underlying (Error ''Request failed with status code 429''))] \<and>
   invocations 0 (log (run (run (run (init 100 1000000) one_job) storm) [Submit])) = 3 + 1 \<and>
   backoffs 0 (log (run (run (run (init 100 1000000) one_job) storm) [Submit])) =
     [2000, 4000, 8000]"
proof -
  have e: "drains (run (init 100 1000000) one_job) = [FnAwait 0]"
    "retryCount (run (init 100 1000000) one_job) = 0"
    "invocations 0 (log (run (init 100 1000000) one_job)) = 1"
    "rate_limited (Error ''429 Too Many Requests'') = Some True"
    "rate_limited (Error ''Request failed with status code 429'') = Some True"
    "maxRetries (run (init 100 1000000) one_job) = 3"
    "log (run (run (init 100 1000000) one_job) storm) =
     [Started 0 1000000, Invoked 0 1000000,
      Backoff 0 2000, Invoked 0 1002043, Backoff 0 4000, Invoked 0 1006068,
      Backoff 0 8000, Invoked 0 1014099,
      Rejected 0 (Underlying (Error ''Request failed with status code 429''))]"
    by code_simp+
  have sd: "run (run (init 100 1000000) one_job) storm =
    run (run (init 100 1000000) one_job)
     [Settle 0 (Inl (Error ''429 Too Many Requests'')),
      Elapse (2 ^ 1 * 1000 + 3), Timer 0, Elapse 25,
      Settle 0 (Inl (Error ''429 Too Many Requests'')),
      Elapse (2 ^ 2 * 1000 + 0), Timer 0, Elapse 30,
      Settle 0 (Inl (Error ''429 Too Many Requests'')),
      Elapse (2 ^ 3 * 1000 + 1), Timer 0, Elapse 20,
      Settle 0 (Inl (Error ''Request failed with status code 429''))]"
    by (simp add: storm_def)
  from rate_limit_storm [OF refl e(1) e(2) e(3) e(4) e(4) e(4) e(5) sd,
      THEN conjunct2, THEN conjunct2, THEN conjunct1, rule_format, of "[Submit]"] e(6)
  have "invocations 0 (log (run (run (run (init 100 1000000) one_job) storm) [Submit])) = 3 + 1 \<and>
   backoffs 0 (log (run (run (run (init 100 1000000) one_job) storm) [Submit])) =
     [2000, 4000, 8000]"
    by simp
  with e show ?thesis by simp
qed

text \<open>C3 as stated gives the delay as \<open>2000 * 2 ^ K\<close> milliseconds; the first backoff is
  \<open>1000 * 2 ^ 1\<close> milliseconds.\<close>

theorem backoff_not_2000_times: 
  "backoffs 0 (log (run (init 100 1000000) [Submit, Settle 0 (Inl (Error ''429''))])) = [1000 * 2 ^ 1] \<and>
   backoffs 0 (log (run (init 100 1000000) [Submit, Settle 0 (Inl (Error ''429''))])) \<noteq> [2000 * 2 ^ 1]"
  by code_simp

subsection \<open>C4: an error without the marker\<close>

text \<open>
  C4 asks that a failure whose message does not contain \<open>429\<close> reject the caller's promise
  with the thrown value itself.  Where the detection expression of line 82 is false it does
  (\<open>unmarked_error_rejects\<close> above).  Where the expression itself throws it does not: a
  callable that rejects with an object whose message is the number 500, or the boolean
  \<^verbatim>\<open>true\<close>, or with \<^verbatim>\<open>undefined\<close>, is invoked once and never retried, but the promise is
  rejected with the \<^verbatim>\<open>TypeError\<close> raised inside the \<^verbatim>\<open>catch\<close> block and the thrown value
  is lost.
\<close>

theorem unmarked_error_wrapped:
  "rate_limited (JObj [(''message'', JNum 500)]) = None \<and>
   log (run (init 100 1000000) [Submit, Settle 0 (Inl (JObj [(''message'', JNum 500)]))]) =
     [Started 0 1000000, Invoked 0 1000000, Rejected 0 DetectionTypeError] \<and>
   Rejected 0 (Underlying (JObj [(''message'', JNum 500)]))
     \<notin> set (log (run (init 100 1000000)
         [Submit, Settle 0 (Inl (JObj [(''message'', JNum 500)]))])) \<and>
   log (run (init 100 1000000) [Submit, Settle 0 (Inl (JObj [(''message'', JBool True)]))]) =
     [Started 0 1000000, Invoked 0 1000000, Rejected 0 DetectionTypeError] \<and>
   log (run (init 100 1000000) [Submit, Settle 0 (Inl JUndefined)]) =
     [Started 0 1000000, Invoked 0 1000000, Rejected 0 DetectionTypeError]"
  by code_simp

subsection \<open>C5: a failed job does not stop the queue\<close>

text \<open>
  C5.  When a job fails for good (the error is not retryable, or the counter has reached
  \<open>maxRetries\<close>), its promise is rejected and the loop goes on in the same step: with an empty
  queue the activation ends and the flag drops, otherwise the head of the queue, whose
  callable had not been invoked so far, is shifted off and its task runs: either its
  callable is invoked, once, in that step, or its interval timer is set and the callable
  waits for it.  From there on, once timers have fired and promises have settled often
  enough, with any outcomes, every submitted task has been started and settled, and its
  callable has been invoked once and once more after each of its backoffs.
\<close>

theorem failure_continues:
  assumes "w = run (init r t0) evs" and "drains w = [FnAwait t]"
    and "\<not> (rate_limited error = Some True \<and> retryCount w < maxRetries w)"
    and "w' = step w (Settle 0 (Inl error))"
  shows "settled (log w') = settled (log w) @ [t] \<and>
     Rejected t (case rate_limited error of None \<Rightarrow> DetectionTypeError
                 | Some b \<Rightarrow> Underlying error) \<in> set (log w') \<and>
     (queue w = [] \<longrightarrow> drains w' = [] \<and> \<not> processing w') \<and>
     (\<forall>j q. queue w = j # q \<longrightarrow>
        processing w' \<and> queue w' = q \<and> invocations j (log w) = 0 \<and>
        (drains w' = [FnAwait j] \<and> invocations j (log w') = 1 \<or>
         drains w' = [IntervalWait j (now w) (lastCallTime w + r - now w)] \<and>
         invocations j (log w') = 0)) \<and>
     (\<forall>os. 9 * Suc (length (queue w)) \<le> length os \<longrightarrow>
        drains (foldl advance w' os) = [] \<and>
        map fst (starts (log (foldl advance w' os))) = [0..<submitted w] \<and>
        settled (log (foldl advance w' os)) = [0..<submitted w] \<and>
        (\<forall>u < submitted w.
           invocations u (log (foldl advance w' os)) =
             Suc (length (backoffs u (log (foldl advance w' os))))))"
proof -
  have c: "consistent r w" unfolding assms(1) by (rule consistent_reach)
  then have tr: "traced r w" and b: "busy w (drains w)" by (simp_all add: consistent_def)
  from tr have rl: "rateLimit w = r" by (simp add: traced_def)
  from b assms(2) have pr: "processing w" and qu: "queue w = [Suc t..<submitted w]"
    and ls: "length (starts (log w)) = Suc t" by simp_all
  let ?w1 = "w\<lparr>log := log w @
       [Rejected t (case rate_limited error of None \<Rightarrow> DetectionTypeError
                    | Some b \<Rightarrow> Underlying error)]\<rparr>"
  have w': "w' = put 0 (drain ?w1)"
    unfolding assms(4) using assms(2,3) by (rule step_Settle_final)
  have d1: "drains ?w1 = [FnAwait t]" using assms(2) by simp
  have c': "consistent r w'" unfolding assms(4) using c by (rule consistent_step)
  have sub: "submitted w' = submitted w" by (simp add: assms(4) submitted_step)
  have q': "queue w' = tl (queue w)" by (simp add: w' put0_fields drain_queue)
  have "settled (log w') = settled (log w) @ [t]"
    by (simp add: w' settled_drain)
  moreover have "Rejected t (case rate_limited error of None \<Rightarrow> DetectionTypeError
                 | Some b \<Rightarrow> Underlying error) \<in> set (log w')"
    by (simp add: w' drain_log)
  moreover have "drains w' = [] \<and> \<not> processing w'" if "queue w = []"
    using that by (simp add: w' put_drain [OF d1] put0_fields drain_queue)
  moreover have "processing w' \<and> queue w' = q \<and> invocations j (log w) = 0 \<and>
        (drains w' = [FnAwait j] \<and> invocations j (log w') = 1 \<or>
         drains w' = [IntervalWait j (now w) (lastCallTime w + r - now w)] \<and>
         invocations j (log w') = 0)"
    if "queue w = j # q" for j q
  proof -
    from that qu have "[Suc t..<submitted w] = j # q" by simp
    then have "j = Suc t" by (auto simp: upt_eq_Cons_conv)
    with traced_fresh [OF tr, of j] ls have z: "invocations j (log w) = 0" by simp
    have "lastCallTime w + r - now w = r - (now w - lastCallTime w)" by simp
    with that pr rl z show ?thesis
      by (simp add: w' put_drain [OF d1] put0_fields drain_queue drain_log)
  qed
  moreover have "drains (foldl advance w' os) = [] \<and>
        map fst (starts (log (foldl advance w' os))) = [0..<submitted w] \<and>
        settled (log (foldl advance w' os)) = [0..<submitted w] \<and>
        (\<forall>u < submitted w.
           invocations u (log (foldl advance w' os)) =
             Suc (length (backoffs u (log (foldl advance w' os)))))"
    if "9 * Suc (length (queue w)) \<le> length os" for os
  proof -
    from that q' have n: "9 * Suc (length (queue w')) \<le> length os" by simp
    from drive_complete [OF c' n] drive_invoked [OF c' n] sub show ?thesis by simp
  qed
  ultimately show ?thesis by blast
qed

theorem failure_continues_witness:
  "drains (run (init 100 1000000) one_running_two_queued) = [FnAwait 0] \<and>
   queue (run (init 100 1000000) one_running_two_queued) = [1, 2] \<and>
   \<not> (rate_limited (Error ''invalid request'') = Some True \<and>
      retryCount (run (init 100 1000000) one_running_two_queued)
        < maxRetries (run (init 100 1000000) one_running_two_queued)) \<and>
   settled (log (step (run (init 100 1000000) one_running_two_queued)
     (Settle 0 (Inl (Error ''invalid request''))))) = [0] \<and>
   processing (step (run (init 100 1000000) one_running_two_queued)
     (Settle 0 (Inl (Error ''invalid request'')))) \<and>
   queue (step (run (init 100 1000000) one_running_two_queued)
     (Settle 0 (Inl (Error ''invalid request'')))) = [2] \<and>
   invocations 1 (log (run (init 100 1000000) one_running_two_queued)) = 0 \<and>
   drains (step (run (init 100 1000000) one_running_two_queued)
     (Settle 0 (Inl (Error ''invalid request'')))) = [FnAwait 1] \<and>
   invocations 1 (log (step (run (init 100 1000000) one_running_two_queued)
     (Settle 0 (Inl (Error ''invalid request''))))) = 1 \<and>
   9 * Suc (length (queue (run (init 100 1000000) one_running_two_queued)))
     \<le> length (replicate 27 (Inl (Error ''invalid request'') :: js_value + js_value)) \<and>
   settled (log (foldl advance (step (run (init 100 1000000) one_running_two_queued)
     (Settle 0 (Inl (Error ''invalid request''))))
       (replicate 27 (Inl (Error ''invalid request''))))) = [0..<3] \<and>
   (2 < submitted (run (init 100 1000000) one_running_two_queued) \<and>
    invocations 2 (log (foldl advance (step (run (init 100 1000000) one_running_two_queued)
     (Settle 0 (Inl (Error ''invalid request''))))
       (replicate 27 (Inl (Error ''invalid request''))))) =
    Suc (length (backoffs 2 (log (foldl advance
      (step (run (init 100 1000000) one_running_two_queued)
        (Settle 0 (Inl (Error ''invalid request''))))
       (replicate 27 (Inl (Error ''invalid request''))))))))"
proof -
  have e: "drains (run (init 100 1000000) one_running_two_queued) = [FnAwait 0]"
    "queue (run (init 100 1000000) one_running_two_queued) = [1, 2]"
    "rate_limited (Error ''invalid request'') = Some False"
    "submitted (run (init 100 1000000) one_running_two_queued) = 3"
    "settled (log (run (init 100 1000000) one_running_two_queued)) = []"
    "drains (step (run (init 100 1000000) one_running_two_queued)
       (Settle 0 (Inl (Error ''invalid request'')))) = [FnAwait 1]"
    by code_simp+
  have h: "\<not> (rate_limited (Error ''invalid request'') = Some True \<and>
      retryCount (run (init 100 1000000) one_running_two_queued)
        < maxRetries (run (init 100 1000000) one_running_two_queued))"
    using e(3) by simp
  note th = failure_continues [OF refl e(1) h refl]
  from th e have "settled (log (step (run (init 100 1000000) one_running_two_queued)
     (Settle 0 (Inl (Error ''invalid request''))))) = [0]" by simp
  moreover from th [THEN conjunct2, THEN conjunct2, THEN conjunct2, THEN conjunct1,
      rule_format, of 1 "[2]"] e
  have "processing (step (run (init 100 1000000) one_running_two_queued)
     (Settle 0 (Inl (Error ''invalid request'')))) \<and>
   queue (step (run (init 100 1000000) one_running_two_queued)
     (Settle 0 (Inl (Error ''invalid request'')))) = [2] \<and>
   invocations 1 (log (run (init 100 1000000) one_running_two_queued)) = 0 \<and>
   invocations 1 (log (step (run (init 100 1000000) one_running_two_queued)
     (Settle 0 (Inl (Error ''invalid request''))))) = 1" by simp
  moreover from th [THEN conjunct2, THEN conjunct2, THEN conjunct2, THEN conjunct2,
      rule_format, of "replicate 27 (Inl (Error ''invalid request''))"] e
  have l: "settled (log (foldl advance (step (run (init 100 1000000) one_running_two_queued)
     (Settle 0 (Inl (Error ''invalid request''))))
       (replicate 27 (Inl (Error ''invalid request''))))) = [0..<3]"
    "\<forall>u < 3. invocations u (log (foldl advance
        (step (run (init 100 1000000) one_running_two_queued)
          (Settle 0 (Inl (Error ''invalid request''))))
       (replicate 27 (Inl (Error ''invalid request''))))) =
      Suc (length (backoffs u (log (foldl advance
        (step (run (init 100 1000000) one_running_two_queued)
          (Settle 0 (Inl (Error ''invalid request''))))
       (replicate 27 (Inl (Error ''invalid request'')))))))" by simp_all
  from l(2) have "invocations 2 (log (foldl advance
        (step (run (init 100 1000000) one_running_two_queued)
          (Settle 0 (Inl (Error ''invalid request''))))
       (replicate 27 (Inl (Error ''invalid request''))))) =
      Suc (length (backoffs 2 (log (foldl advance
        (step (run (init 100 1000000) one_running_two_queued)
          (Settle 0 (Inl (Error ''invalid request''))))
       (replicate 27 (Inl (Error ''invalid request'')))))))" by simp
  ultimately show ?thesis using e h l(1) by simp
qed

subsection \<open>C6: first in, first out\<close>

text \<open>
  C6.  Jobs start in submission order: the started tasks are \<open>0, 1, \<dots>\<close> without gap or
  repetition, so a later task never starts before an earlier one.  The queue always holds
  the most recently submitted tasks in submission order, all of them later than every
  started task.  Tasks are settled in the order they start, and at most one started task is
  not yet settled.
\<close>

theorem fifo_order:
  assumes "w = run (init r t0) evs"
  shows "map fst (starts (log w)) = [0..<length (starts (log w))] \<and>
    settled (log w) = take (length (settled (log w))) (map fst (starts (log w))) \<and>
    length (starts (log w)) \<le> Suc (length (settled (log w))) \<and>
    queue w = [submitted w - length (queue w)..<submitted w] \<and>
    (\<forall>t \<in> set (queue w). length (starts (log w)) \<le> t)"
proof -
  have c: "consistent r w" unfolding assms by (rule consistent_reach)
  then have tr: "traced r w" and b: "busy w (drains w)" by (simp_all add: consistent_def)
  from tr have s: "map fst (starts (log w)) = [0..<length (starts (log w))]"
    and d: "settled (log w) = [0..<length (settled (log w))]" by (simp_all add: traced_def)
  from b have l: "length (settled (log w)) \<le> length (starts (log w)) \<and>
      length (starts (log w)) \<le> Suc (length (settled (log w))) \<and>
      queue w = [submitted w - length (queue w)..<submitted w] \<and>
      (\<forall>t \<in> set (queue w). length (starts (log w)) \<le> t)"
    by (cases rule: busy_cases) (use b in auto)
  have "take (length (settled (log w))) (map fst (starts (log w))) =
      take (length (settled (log w))) [0..<length (starts (log w))]" using s by simp
  also have "\<dots> = [0..<length (settled (log w))]" using l by (simp add: take_upt)
  finally show ?thesis using s d l by simp
qed

theorem fifo_order_witness:
  "map fst (starts (log (run (init 0 1000000) three_jobs))) = [0, 1] \<and>
   settled (log (run (init 0 1000000) three_jobs)) = [0] \<and>
   queue (run (init 0 1000000) three_jobs) = [2] \<and>
   2 \<in> set (queue (run (init 0 1000000) three_jobs)) \<and>
   length (starts (log (run (init 0 1000000) three_jobs))) \<le> 2"
proof -
  have e: "starts (log (run (init 0 1000000) three_jobs)) = [(0, 1000000), (1, 1000000)]"
    "settled (log (run (init 0 1000000) three_jobs)) = [0]"
    "queue (run (init 0 1000000) three_jobs) = [2]"
    by code_simp+
  from fifo_order [OF refl, of 0 1000000 three_jobs]
  have "\<forall>t \<in> set (queue (run (init 0 1000000) three_jobs)).
      length (starts (log (run (init 0 1000000) three_jobs))) \<le> t"
    by (elim conjE)
  then have "length (starts (log (run (init 0 1000000) three_jobs))) \<le> 2"
    using e(3) by simp
  with e show ?thesis by simp
qed

subsection \<open>C7: the processing flag\<close>

text \<open>
  C7.  Whatever the interleaving, at most one activation of \<^verbatim>\<open>processQueue\<close> is alive, and
  the flag is up exactly while one is.  A submission made while the flag is up only appends
  to the queue.  Every submitted task is in exactly one place (started, shifted off and
  waiting for its interval, or queued), and each started task occurs once.  The callable of a
  task that has not started has not been invoked; the callable of a started task has been
  invoked at least once and at most once more than it has backed off, which is at most
  \<open>maxRetries\<close> times; once the task is settled it has been invoked exactly once and once more
  after each backoff.  And once the environment has let timers fire and promises settle
  often enough, with any outcomes, every submitted task has been started and settled, and
  its callable invoked in just that number.
\<close>

theorem single_drain:
  assumes "w = run (init r t0) evs"
  shows "length (drains w) \<le> 1 \<and> (processing w \<longleftrightarrow> drains w \<noteq> []) \<and>
    (processing w \<longrightarrow>
       step w Submit = w\<lparr>queue := queue w @ [submitted w], submitted := Suc (submitted w)\<rparr>) \<and>
    map fst (starts (log w)) @ concat (map dequeued (drains w)) @ queue w = [0..<submitted w] \<and>
    (\<forall>t. length (starts (log w)) \<le> t \<longrightarrow> invocations t (log w) = 0) \<and>
    (\<forall>t < length (starts (log w)).
       1 \<le> invocations t (log w) \<and>
       invocations t (log w) \<le> Suc (length (backoffs t (log w))) \<and>
       length (backoffs t (log w)) \<le> maxRetries w \<and>
       (t < length (settled (log w)) \<longrightarrow>
          invocations t (log w) = Suc (length (backoffs t (log w))))) \<and>
    (\<forall>os. 9 * Suc (length (queue w)) \<le> length os \<longrightarrow>
       drains (foldl advance w os) = [] \<and>
       map fst (starts (log (foldl advance w os))) = [0..<submitted w] \<and>
       settled (log (foldl advance w os)) = [0..<submitted w] \<and>
       (\<forall>t < submitted w.
          invocations t (log (foldl advance w os)) =
            Suc (length (backoffs t (log (foldl advance w os))))))"
proof -
  have c: "consistent r w" unfolding assms by (rule consistent_reach)
  then have tr: "traced r w" and b: "busy w (drains w)" by (simp_all add: consistent_def)
  from tr have s: "map fst (starts (log w)) = [0..<length (starts (log w))]"
    by (simp add: traced_def)
  from b have "length (drains w) \<le> 1 \<and> (processing w \<longleftrightarrow> drains w \<noteq> []) \<and>
      [0..<length (starts (log w))] @ concat (map dequeued (drains w)) @ queue w =
        [0..<submitted w]"
  proof (cases rule: busy_cases)
    case 1
    with b show ?thesis by simp
  next
    case (2 t s d)
    with b have "processing w" "queue w = [Suc t..<submitted w]" "t < submitted w"
      "length (starts (log w)) = t" by simp_all
    with 2 show ?thesis using upt_add_eq_append [of 0 t "submitted w - t"]
      by (simp add: upt_conv_Cons)
  next
    case (3 t)
    with b have "processing w" "queue w = [Suc t..<submitted w]" "t < submitted w"
      "length (starts (log w)) = Suc t" by simp_all
    with 3 show ?thesis using upt_add_eq_append [of 0 "Suc t" "submitted w - Suc t"]
      by simp
  next
    case (4 t s d)
    with b have "processing w" "queue w = [Suc t..<submitted w]" "t < submitted w"
      "length (starts (log w)) = Suc t" by simp_all
    with 4 show ?thesis using upt_add_eq_append [of 0 "Suc t" "submitted w - Suc t"]
      by simp
  qed
  with s have a: "length (drains w) \<le> 1 \<and> (processing w \<longleftrightarrow> drains w \<noteq> []) \<and>
      map fst (starts (log w)) @ concat (map dequeued (drains w)) @ queue w =
        [0..<submitted w]" by simp
  have fr: "invocations t (log w) = 0" if "length (starts (log w)) \<le> t" for t
    using traced_fresh [OF tr that] by simp
  note si = started_invoked [OF c]
  have lv: "drains (foldl advance w os) = [] \<and>
       map fst (starts (log (foldl advance w os))) = [0..<submitted w] \<and>
       settled (log (foldl advance w os)) = [0..<submitted w] \<and>
       (\<forall>t < submitted w.
          invocations t (log (foldl advance w os)) =
            Suc (length (backoffs t (log (foldl advance w os)))))"
    if "9 * Suc (length (queue w)) \<le> length os" for os
    using drive_complete [OF c that] drive_invoked [OF c that] by simp
  from a fr si lv show ?thesis by (simp add: processing_Submit)
qed

theorem single_drain_witness:
  "processing (run (init 2000 1000000) three_submitted) \<and>
   drains (run (init 2000 1000000) three_submitted) = [FnAwait 0] \<and>
   queue (step (run (init 2000 1000000) three_submitted) Submit) = [1, 2, 3] \<and>
   drains (step (run (init 2000 1000000) three_submitted) Submit) = [FnAwait 0] \<and>
   (0 < length (starts (log (run (init 2000 1000000) three_submitted))) \<and>
    invocations 0 (log (run (init 2000 1000000) three_submitted)) = 1) \<and>
   (length (starts (log (run (init 2000 1000000) three_submitted))) \<le> 1 \<and>
    invocations 1 (log (run (init 2000 1000000) three_submitted)) = 0) \<and>
   9 * Suc (length (queue (run (init 2000 1000000) three_submitted)))
     \<le> length (replicate 27 (Inr JNull :: js_value + js_value)) \<and>
   settled (log (foldl advance (run (init 2000 1000000) three_submitted)
     (replicate 27 (Inr JNull)))) = [0..<3] \<and>
   (2 < submitted (run (init 2000 1000000) three_submitted) \<and>
    invocations 2 (log (foldl advance (run (init 2000 1000000) three_submitted)
      (replicate 27 (Inr JNull)))) =
    Suc (length (backoffs 2 (log (foldl advance (run (init 2000 1000000) three_submitted)
      (replicate 27 (Inr JNull)))))))"
proof -
  have e: "processing (run (init 2000 1000000) three_submitted)"
    "drains (run (init 2000 1000000) three_submitted) = [FnAwait 0]"
    "queue (run (init 2000 1000000) three_submitted) = [1, 2]"
    "submitted (run (init 2000 1000000) three_submitted) = 3"
    "length (starts (log (run (init 2000 1000000) three_submitted))) = 1"
    "invocations 0 (log (run (init 2000 1000000) three_submitted)) = 1"
    "backoffs 0 (log (run (init 2000 1000000) three_submitted)) = []"
    by code_simp+
  note th = single_drain [OF refl, of 2000 1000000 three_submitted]
  from th e(1) have "step (run (init 2000 1000000) three_submitted) Submit =
      (run (init 2000 1000000) three_submitted)\<lparr>queue :=
        queue (run (init 2000 1000000) three_submitted) @
          [submitted (run (init 2000 1000000) three_submitted)],
        submitted := Suc (submitted (run (init 2000 1000000) three_submitted))\<rparr>"
    by (elim conjE) simp
  with e have s: "queue (step (run (init 2000 1000000) three_submitted) Submit) = [1, 2, 3]"
    "drains (step (run (init 2000 1000000) three_submitted) Submit) = [FnAwait 0]"
    by simp_all
  from th have "\<forall>t. length (starts (log (run (init 2000 1000000) three_submitted))) \<le> t \<longrightarrow>
      invocations t (log (run (init 2000 1000000) three_submitted)) = 0"
    by (elim conjE)
  from this [rule_format, of 1] e
  have i1: "invocations 1 (log (run (init 2000 1000000) three_submitted)) = 0" by simp
  from th have "\<forall>os. 9 * Suc (length (queue (run (init 2000 1000000) three_submitted))) \<le> length os \<longrightarrow>
       drains (foldl advance (run (init 2000 1000000) three_submitted) os) = [] \<and>
       map fst (starts (log (foldl advance (run (init 2000 1000000) three_submitted) os))) =
         [0..<submitted (run (init 2000 1000000) three_submitted)] \<and>
       settled (log (foldl advance (run (init 2000 1000000) three_submitted) os)) =
         [0..<submitted (run (init 2000 1000000) three_submitted)] \<and>
       (\<forall>t < submitted (run (init 2000 1000000) three_submitted).
          invocations t (log (foldl advance (run (init 2000 1000000) three_submitted) os)) =
            Suc (length (backoffs t
              (log (foldl advance (run (init 2000 1000000) three_submitted) os)))))"
    by (elim conjE)
  from this [rule_format, of "replicate 27 (Inr JNull)"] e
  have l: "settled (log (foldl advance (run (init 2000 1000000) three_submitted)
     (replicate 27 (Inr JNull)))) = [0..<3]"
    "\<forall>t < 3. invocations t (log (foldl advance (run (init 2000 1000000) three_submitted)
        (replicate 27 (Inr JNull)))) =
      Suc (length (backoffs t (log (foldl advance (run (init 2000 1000000) three_submitted)
        (replicate 27 (Inr JNull))))))"
    by simp_all
  from l(2) have "invocations 2 (log (foldl advance (run (init 2000 1000000) three_submitted)
      (replicate 27 (Inr JNull)))) =
    Suc (length (backoffs 2 (log (foldl advance (run (init 2000 1000000) three_submitted)
      (replicate 27 (Inr JNull))))))" by simp
  with e s i1 l(1) show ?thesis by simp
qed

subsection \<open>C8: configuration\<close>

text \<open>
  C8, as the code has it.  The constructor takes the minimum interval only; \<open>maxRetries\<close> is
  the field initialiser 3 of line 50.  Every instance has \<open>maxRetries = 3\<close> and the interval
  it was constructed with, and no event changes either.
\<close>

theorem config_fixed:
  "maxRetries (new_RateLimiter r) = 3 \<and> rateLimit (new_RateLimiter r) = r \<and>
   maxRetries (run (init r t0) evs) = 3 \<and> rateLimit (run (init r t0) evs) = r"
  using consistent_reach [of r t0 evs]
  by (simp add: consistent_def traced_def new_RateLimiter_def)

theorem config_fixed_witness:
  "maxRetries (run (init 2000 1000000) [Submit, Settle 0 (Inl (Error ''429'')), Elapse 2000, Timer 0]) = 3 \<and>
   rateLimit (run (init 2000 1000000) [Submit, Settle 0 (Inl (Error ''429'')), Elapse 2000, Timer 0]) = 2000"
  using config_fixed [of 2000 1000000 "[Submit, Settle 0 (Inl (Error ''429'')), Elapse 2000, Timer 0]"]
  by simp

text \<open>C8 as stated fails: no argument of the constructor yields a retry budget of 5.\<close>

theorem maxRetries_not_chosen: "\<not> (\<exists>r. maxRetries (new_RateLimiter r) = 5)"
  by (simp add: new_RateLimiter_def)

subsection \<open>C9: the detection expression on arbitrary thrown values\<close>

text \<open>
  C9 asks that detection never throw and never retry unless the message is a string with
  \<open>429\<close>.  The optional chain of line 82 guards the message, not the thrown value: on a
  thrown \<^verbatim>\<open>null\<close> or \<^verbatim>\<open>undefined\<close> reading \<^verbatim>\<open>.message\<close> throws, and on a message that is a
  number \<^verbatim>\<open>.includes\<close> is not callable, so the promise is rejected with that
  \<^verbatim>\<open>TypeError\<close> and not with the thrown value; a message that is an array holding \<open>429\<close> is
  retried.
\<close>

theorem detection_throws:
  "rate_limited JNull = None \<and> rate_limited JUndefined = None \<and>
   rate_limited (JObj [(''message'', JNum 429)]) = None \<and>
   rate_limited (JObj [(''message'', JArr [JStr ''429''])]) = Some True \<and>
   log (run (init 100 1000000) [Submit, Settle 0 (Inl JNull)]) =
     [Started 0 1000000, Invoked 0 1000000, Rejected 0 DetectionTypeError] \<and>
   log (run (init 100 1000000) [Submit, Settle 0 (Inl (JObj [(''message'', JNum 429)]))]) =
     [Started 0 1000000, Invoked 0 1000000, Rejected 0 DetectionTypeError] \<and>
   log (run (init 100 1000000) [Submit, Settle 0 (Inl (JObj [(''message'', JArr [JStr ''429''])]))]) =
     [Started 0 1000000, Invoked 0 1000000, Backoff 0 2000]"
  by code_simp

subsection \<open>C10: the timestamp is written once per job\<close>

text \<open>
  C10.  Line 65 writes \<open>lastCallTime\<close> and the callable's first invocation follows at the same
  clock value; the two stretches of \<^verbatim>\<open>retryWithBackoff\<close> leave the queue, the flag and
  \<open>lastCallTime\<close> as they are.  In every reachable world \<open>lastCallTime\<close> is the start of the
  task started last (0 before any start), each task has one start, and while a task awaits
  its callable or a backoff timer, however many retries in, \<open>lastCallTime\<close> is still that
  task's start; so the interval timer of the next task is set, at the current clock value,
  for the delay that ends at that start plus \<open>rateLimit\<close>.
\<close>

theorem timestamp_once_per_job:
  assumes "w = run (init r t0) evs"
  shows "(lastCallTime (fst (task_start t s)) = now s \<and>
      log (fst (task_start t s)) = log s @ [Started t (now s), Invoked t (now s)]) \<and>
    (queue (fst (retryWithBackoff t s)) = queue s \<and>
      processing (fst (retryWithBackoff t s)) = processing s \<and>
      lastCallTime (fst (retryWithBackoff t s)) = lastCallTime s) \<and>
    (queue (fst (retryWithBackoff_settled t outcome s)) = queue s \<and>
      processing (fst (retryWithBackoff_settled t outcome s)) = processing s \<and>
      lastCallTime (fst (retryWithBackoff_settled t outcome s)) = lastCallTime s) \<and>
    lastCallTime w = (if starts (log w) = [] then 0 else snd (last (starts (log w)))) \<and>
    distinct (map fst (starts (log w))) \<and>
    (\<forall>u s d. drains w = [FnAwait u] \<or> drains w = [BackoffWait u s d] \<longrightarrow>
       starts (log w) \<noteq> [] \<and> last (starts (log w)) = (u, lastCallTime w)) \<and>
    (\<forall>u j q v. drains w = [FnAwait u] \<and> queue w = j # q \<and> now w - lastCallTime w < r \<longrightarrow>
       drains (step w (Settle 0 (Inr v))) =
         [IntervalWait j (now w) (snd (last (starts (log w))) + r - now w)])"
proof -
  have c: "consistent r w" unfolding assms by (rule consistent_reach)
  then have tr: "traced r w" and b: "busy w (drains w)" by (simp_all add: consistent_def)
  from tr have rl: "rateLimit w = r"
    and ids: "map fst (starts (log w)) = [0..<length (starts (log w))]"
    and lc: "lastCallTime w = (if starts (log w) = [] then 0 else snd (last (starts (log w))))"
    by (simp_all add: traced_def)
  have fr: "queue (fst (retryWithBackoff_settled t outcome s)) = queue s \<and>
      processing (fst (retryWithBackoff_settled t outcome s)) = processing s \<and>
      lastCallTime (fst (retryWithBackoff_settled t outcome s)) = lastCallTime s"
    by (simp add: retryWithBackoff_settled_def Let_def split: sum.split option.split)
  have inflight: "starts (log w) \<noteq> [] \<and> last (starts (log w)) = (u, lastCallTime w)"
    if "length (starts (log w)) = Suc u" for u
  proof -
    from that have ne: "starts (log w) \<noteq> []" by auto
    then have "fst (last (starts (log w))) = last (map fst (starts (log w)))"
      by (simp add: last_map)
    also have "\<dots> = u" using that by (subst ids) simp
    finally show ?thesis using ne lc by (simp add: prod_eq_iff)
  qed
  have fl: "starts (log w) \<noteq> [] \<and> last (starts (log w)) = (u, lastCallTime w)"
    if "drains w = [FnAwait u] \<or> drains w = [BackoffWait u s d]" for u s d
    using that b by (intro inflight) auto
  have nx: "drains (step w (Settle 0 (Inr v))) =
      [IntervalWait j (now w) (snd (last (starts (log w))) + r - now w)]"
    if "drains w = [FnAwait u]" "queue w = j # q" "now w - lastCallTime w < r" for u j q v
  proof -
    from fl that(1) have "starts (log w) \<noteq> []" by blast
    with lc have "lastCallTime w = snd (last (starts (log w)))" by simp
    moreover have d1: "drains (w\<lparr>retryCount := 0, log := log w @ [Resolved u v]\<rparr>) = [FnAwait u]"
      using that(1) by simp
    moreover have "snd (last (starts (log w))) + r - now w =
        r - (now w - snd (last (starts (log w))))" by simp
    ultimately show ?thesis using that rl
      by (simp add: step_Settle_resolved put_drain [OF d1] drain_queue)
  qed
  have di: "distinct (map fst (starts (log w)))" by (subst ids) simp
  have ts: "lastCallTime (fst (task_start t s)) = now s \<and>
      log (fst (task_start t s)) = log s @ [Started t (now s), Invoked t (now s)]"
    by (simp add: task_start_def retryWithBackoff_def)
  have rb: "queue (fst (retryWithBackoff t s)) = queue s \<and>
      processing (fst (retryWithBackoff t s)) = processing s \<and>
      lastCallTime (fst (retryWithBackoff t s)) = lastCallTime s"
    by (simp add: retryWithBackoff_def)
  from ts rb fr lc di fl nx show ?thesis by blast
qed

theorem timestamp_once_per_job_witness:
  "starts (log (run (init 5000 1000000) retried_once)) = [(0, 1000000)] \<and>
   log (run (init 5000 1000000) retried_once) =
     [Started 0 1000000, Invoked 0 1000000, Backoff 0 2000, Invoked 0 1002000] \<and>
   drains (run (init 5000 1000000) retried_once) = [FnAwait 0] \<and>
   queue (run (init 5000 1000000) retried_once) = [1] \<and>
   now (run (init 5000 1000000) retried_once) - lastCallTime (run (init 5000 1000000) retried_once)
     < 5000 \<and>
   last (starts (log (run (init 5000 1000000) retried_once))) =
     (0, lastCallTime (run (init 5000 1000000) retried_once)) \<and>
   lastCallTime (run (init 5000 1000000) retried_once) = 1000000 \<and>
   drains (step (run (init 5000 1000000) retried_once) (Settle 0 (Inr JNull))) =
     [IntervalWait 1 1002000 (1000000 + 5000 - 1002000)]"
proof -
  have e: "starts (log (run (init 5000 1000000) retried_once)) = [(0, 1000000)]"
    "log (run (init 5000 1000000) retried_once) =
     [Started 0 1000000, Invoked 0 1000000, Backoff 0 2000, Invoked 0 1002000]"
    "drains (run (init 5000 1000000) retried_once) = [FnAwait 0]"
    "queue (run (init 5000 1000000) retried_once) = [1]"
    "now (run (init 5000 1000000) retried_once) = 1002000"
    by code_simp+
  note th = timestamp_once_per_job [OF refl, of _ _ _ 5000 1000000 retried_once]
  from th e(1) have l: "lastCallTime (run (init 5000 1000000) retried_once) = 1000000"
    by simp
  from th [THEN conjunct2, THEN conjunct2, THEN conjunct2, THEN conjunct2, THEN conjunct2,
      THEN conjunct1, rule_format, of 0] e(3)
  have f: "last (starts (log (run (init 5000 1000000) retried_once))) =
     (0, lastCallTime (run (init 5000 1000000) retried_once))" by simp
  from th [THEN conjunct2, THEN conjunct2, THEN conjunct2, THEN conjunct2, THEN conjunct2,
      THEN conjunct2, rule_format, of 0 1 "[]" JNull] e l
  have "drains (step (run (init 5000 1000000) retried_once) (Settle 0 (Inr JNull))) =
     [IntervalWait 1 1002000 (1000000 + 5000 - 1002000)]" by simp
  with e l f show ?thesis by simp
qed


end
